theory Spec2Isabelle
  imports Main "HOL-Library.Word" "HOL-Library.Product_Lexorder" "HOL-Library.Sublist"
begin

section \<open>The file system and the console as the program sees them\<close>

text \<open>
  The program of \<^verbatim>\<open>advanced_dedup.cpp\<close> talks to the world through
  \<^verbatim>\<open>std::filesystem\<close>, \<^verbatim>\<open>std::ifstream\<close>, \<^verbatim>\<open>std::cin\<close> and
  \<^verbatim>\<open>std::cout\<close>. A path is a string. A regular file has its bytes, its
  modification time, and two facts about the operating system's answer: whether
  opening it for reading succeeds and whether \<^verbatim>\<open>fs::remove\<close> succeeds. The file
  system is a partial map from paths to files; a path outside its domain makes
  \<^verbatim>\<open>fs::file_size\<close> and \<^verbatim>\<open>fs::last_write_time\<close> throw.

  \<^verbatim>\<open>size_t\<close> and \<^verbatim>\<open>uintmax_t\<close> are the same 64-bit unsigned type (the
  source calls \<^verbatim>\<open>std::min(sampleSize, size)\<close> on one of each, which only
  compiles when they agree), so both are \<open>64 word\<close>; \<^verbatim>\<open>uint32_t\<close> is
  \<open>32 word\<close>.
\<close>

type_synonym path = string
type_synonym byte = "8 word"
type_synonym u64 = "64 word"
type_synonym u32 = "32 word"

record regular_file =
  content :: "byte list"
  mtime :: int
  can_open :: bool
  can_remove :: bool

type_synonym filesystem = "path \<rightharpoonup> regular_file"

datatype error =
    filesystem_error path
  | cannot_open path
  | read_failed path
  | division_by_zero
  | index_out_of_range
  | invalid_argument
  | out_of_range

datatype io_event =
    OpenFile path
  | ReadBlock path u64 u64

text \<open>\<^verbatim>\<open>getFileSize\<close> (lines 43-45): \<^verbatim>\<open>fs::file_size\<close>, which throws
  for a path that is not there.\<close>

definition getFileSize :: "filesystem \<Rightarrow> path \<Rightarrow> error + u64" where
  "getFileSize fs filepath =
     (case fs filepath of
        None \<Rightarrow> Inl (filesystem_error filepath)
      | Some f \<Rightarrow> Inr (of_nat (length (content f))))"

text \<open>Standard input is the list of the lines still to come;
  \<^verbatim>\<open>std::getline\<close> into a fresh string leaves it empty at end of input.\<close>

fun getline :: "string list \<Rightarrow> string \<times> string list" where
  "getline [] = ([], [])"
| "getline (l # ls) = (l, ls)"

section \<open>areFilesIdentical (lines 124-170)\<close>

definition bufferSize :: u64 where
  "bufferSize = 1024 * 64"

text \<open>The \<^verbatim>\<open>while (totalRead < size1)\<close> loop. Both streams are read
  sequentially, so after \<open>totalRead\<close> bytes of complete reads the next
  \<^verbatim>\<open>read\<close> delivers what the file holds from offset \<open>totalRead\<close>, at most
  \<open>toRead\<close> bytes; \<^verbatim>\<open>gcount\<close> is the length of what was delivered.\<close>

function compare_blocks ::
  "path \<Rightarrow> path \<Rightarrow> byte list \<Rightarrow> byte list \<Rightarrow> u64 \<Rightarrow> u64 \<Rightarrow> io_event list
     \<Rightarrow> io_event list \<times> bool" where
  "compare_blocks file1 file2 c1 c2 size1 totalRead tr =
     (if totalRead < size1 then
        (let toRead = min bufferSize (size1 - totalRead);
             buffer1 = take (unat toRead) (drop (unat totalRead) c1);
             buffer2 = take (unat toRead) (drop (unat totalRead) c2);
             tr' = tr @ [ReadBlock file1 totalRead toRead, ReadBlock file2 totalRead toRead]
         in if length buffer1 \<noteq> length buffer2 \<or> length buffer1 \<noteq> unat toRead then (tr', False)
            else if buffer1 \<noteq> buffer2 then (tr', False)
            else compare_blocks file1 file2 c1 c2 size1 (totalRead + toRead) tr')
      else (tr, True))"
  by pat_completeness auto

lemma toRead_step:
  fixes size1 totalRead :: u64
  assumes lt: "totalRead < size1"
  defines "toRead \<equiv> min bufferSize (size1 - totalRead)"
  shows "0 < unat toRead" and "unat toRead \<le> unat size1 - unat totalRead"
    and "unat (totalRead + toRead) = unat totalRead + unat toRead"
proof -
  have le: "totalRead \<le> size1" using lt by simp
  have d: "unat (size1 - totalRead) = unat size1 - unat totalRead"
    using le by (simp add: unat_sub)
  have dpos: "0 < unat size1 - unat totalRead"
    using lt by (simp add: word_less_nat_alt)
  have b: "unat bufferSize = 65536" by (simp add: bufferSize_def)
  have t: "unat toRead = min 65536 (unat size1 - unat totalRead)"
    unfolding toRead_def using b d by (simp add: min_def word_le_nat_alt)
  show "0 < unat toRead" using t dpos by simp
  show tle: "unat toRead \<le> unat size1 - unat totalRead" using t by simp
  have "unat totalRead + unat toRead \<le> unat size1" using tle dpos by linarith
  moreover have "unat size1 < 2 ^ LENGTH(64)" by (rule unsigned_less)
  ultimately have "unat totalRead + unat toRead < 2 ^ LENGTH(64)" by linarith
  then show "unat (totalRead + toRead) = unat totalRead + unat toRead"
    by (rule unat_add_lem[THEN iffD1])
qed

termination compare_blocks
proof (relation "measure (\<lambda>(f1, f2, c1, c2, size1, totalRead, tr). unat size1 - unat totalRead)", goal_cases)
  case 1
  show ?case by simp
next
  case (2 file1 file2 c1 c2 size1 totalRead tr toRead buffer1 buffer2 tr')
  then show ?case
    using toRead_step[of totalRead size1] by simp
qed

declare compare_blocks.simps [simp del]

text \<open>\<^verbatim>\<open>std::ifstream f(path, std::ios::binary)\<close>: the stream is good when the
  file is there and the system lets it be opened; it then delivers the bytes.\<close>

definition ifstream :: "filesystem \<Rightarrow> path \<Rightarrow> byte list option" where
  "ifstream fs filepath =
     (case fs filepath of
        None \<Rightarrow> None
      | Some f \<Rightarrow> if can_open f then Some (content f) else None)"

definition areFilesIdentical ::
  "filesystem \<Rightarrow> path \<Rightarrow> path \<Rightarrow> io_event list \<times> (error + bool)" where
  "areFilesIdentical fs file1 file2 =
     (case getFileSize fs file1 of
        Inl e \<Rightarrow> ([], Inl e)
      | Inr size1 \<Rightarrow>
     (case getFileSize fs file2 of
        Inl e \<Rightarrow> ([], Inl e)
      | Inr size2 \<Rightarrow>
        if size1 \<noteq> size2 then ([], Inr False)
        else if size1 = 0 then ([], Inr True)
        else
          (case (ifstream fs file1, ifstream fs file2) of
             (Some f1, Some f2) \<Rightarrow>
               (case compare_blocks file1 file2 f1 f2 size1 0 [OpenFile file1, OpenFile file2] of
                  (tr, r) \<Rightarrow> (tr, Inr r))
           | _ \<Rightarrow> ([OpenFile file1, OpenFile file2], Inr False))))"

section \<open>generateFileSignature (lines 76-121)\<close>

text \<open>\<^verbatim>\<open>std::to_string\<close> of an unsigned value: its decimal digits.\<close>

definition digit_char :: "nat \<Rightarrow> char" where
  "digit_char d = ''0123456789'' ! d"

fun to_string :: "nat \<Rightarrow> string" where
  "to_string n =
     (if n < 10 then [digit_char n] else to_string (n div 10) @ [digit_char (n mod 10)])"

declare to_string.simps [simp del]

text \<open>The inner loop of lines 112-115:
  \<^verbatim>\<open>simpleHash = (simpleHash * 31) + static_cast<unsigned char>(buffer[i])\<close>
  on a \<^verbatim>\<open>uint32_t\<close>.\<close>

definition simpleHash :: "byte list \<Rightarrow> u32" where
  "simpleHash buffer = foldl (\<lambda>h b. h * 31 + ucast b) 0 buffer"

text \<open>Lines 89-99: position 0, the \<open>samplePoints\<close> interior positions
  \<^verbatim>\<open>(size * i) / (samplePoints + 1)\<close> in 64-bit arithmetic, and the position of
  the last window; then \<^verbatim>\<open>std::sort\<close> and \<^verbatim>\<open>std::unique\<close>.\<close>

definition keyPositions :: "u64 \<Rightarrow> u64 \<Rightarrow> u64 \<Rightarrow> u64 list" where
  "keyPositions samplePoints sampleSize fsize =
     remdups_adj (sort
       ([0]
        @ map (\<lambda>i. (fsize * of_nat i) div (samplePoints + 1)) [1 ..< Suc (unat samplePoints)]
        @ [fsize - min sampleSize fsize]))"

text \<open>The loop of lines 103-118 over the positions: seek, read
  \<^verbatim>\<open>min(sampleSize, size - pos)\<close> bytes, throw when fewer arrive, hash, append.\<close>

fun sample_windows ::
  "u64 \<Rightarrow> u64 \<Rightarrow> path \<Rightarrow> byte list \<Rightarrow> u64 list \<Rightarrow> io_event list \<Rightarrow> string
     \<Rightarrow> io_event list \<times> (error + string)" where
  "sample_windows sampleSize fsize filepath bytes [] tr signature = (tr, Inr signature)"
| "sample_windows sampleSize fsize filepath bytes (pos # rest) tr signature =
     (let readSize = min sampleSize (fsize - pos);
          buffer = take (unat readSize) (drop (unat pos) bytes);
          tr' = tr @ [ReadBlock filepath pos readSize]
      in if length buffer \<noteq> unat readSize then (tr', Inl (read_failed filepath))
         else sample_windows sampleSize fsize filepath bytes rest tr'
                (signature @ to_string (unat (simpleHash buffer)) @ ''|''))"

text \<open>The function itself. \<open>samplePoints\<close> and \<open>sampleSize\<close> are the fields of
  the class. When \<open>samplePoints + 1\<close> wraps to 0 the first interior position
  divides by zero. The buffer of \<open>sampleSize\<close> bytes is taken to be allocated.\<close>

definition generateFileSignature ::
  "u64 \<Rightarrow> u64 \<Rightarrow> filesystem \<Rightarrow> path \<Rightarrow> io_event list \<times> (error + string)" where
  "generateFileSignature samplePoints sampleSize fs filepath =
     (case getFileSize fs filepath of
        Inl e \<Rightarrow> ([], Inl e)
      | Inr fsize \<Rightarrow>
          (let signature = to_string (unat fsize) @ ''|'' in
           if fsize \<le> sampleSize * 2 then ([], Inr (signature @ ''SMALL''))
           else
             (case ifstream fs filepath of
                None \<Rightarrow> ([OpenFile filepath], Inl (cannot_open filepath))
              | Some bytes \<Rightarrow>
                  if 1 \<le> samplePoints \<and> samplePoints + 1 = 0
                  then ([OpenFile filepath], Inl division_by_zero)
                  else sample_windows sampleSize fsize filepath bytes
                         (keyPositions samplePoints sampleSize fsize) [OpenFile filepath] signature)))"

text \<open>The fingerprint as the specification words it, over natural numbers:
  the offsets \<open>{0} \<union> {\<lfloor>N i / (samplePoints + 1)\<rfloor> | 1 \<le> i \<le> samplePoints} \<union>
  {N - min(sampleSize, N)}\<close> in ascending order without repetition, the hash
  \<open>h := (h * 31 + byte) mod 2^32\<close> from \<open>h = 0\<close> over the
  \<open>min(sampleSize, N - p)\<close> bytes at offset \<open>p\<close>, and the string
  \<open>N|h0|h1|...|\<close>.\<close>

definition spec_offsets :: "nat \<Rightarrow> nat \<Rightarrow> nat \<Rightarrow> nat list" where
  "spec_offsets samplePoints sampleSize N =
     sorted_list_of_set
       ({0} \<union> (\<lambda>i. N * i div (samplePoints + 1)) ` {1 .. samplePoints}
            \<union> {N - min sampleSize N})"

definition spec_hash :: "byte list \<Rightarrow> nat" where
  "spec_hash bytes = foldl (\<lambda>h b. (h * 31 + unat b) mod 2 ^ 32) 0 bytes"

definition spec_window :: "nat \<Rightarrow> byte list \<Rightarrow> nat \<Rightarrow> byte list" where
  "spec_window sampleSize bytes p = take (min sampleSize (length bytes - p)) (drop p bytes)"

definition spec_fingerprint :: "nat \<Rightarrow> nat \<Rightarrow> byte list \<Rightarrow> string" where
  "spec_fingerprint samplePoints sampleSize bytes =
     to_string (length bytes) @ ''|''
     @ concat (map (\<lambda>p. to_string (spec_hash (spec_window sampleSize bytes p)) @ ''|'')
                (spec_offsets samplePoints sampleSize (length bytes)))"

section \<open>findExactDuplicates (lines 510-544)\<close>

text \<open>The \<^verbatim>\<open>try\<close> block of lines 528-535: the pair counts as identical when
  \<^verbatim>\<open>areFilesIdentical\<close> returns true; an exception is caught and the pair is
  left alone.\<close>

definition identical :: "filesystem \<Rightarrow> path \<Rightarrow> path \<Rightarrow> bool" where
  "identical fs a b = (snd (areFilesIdentical fs a b) = Inr True)"

text \<open>The loop over \<open>j\<close> (lines 525-536) with the vector \<open>processed\<close> and the
  group being built.\<close>

function inner_loop ::
  "filesystem \<Rightarrow> path list \<Rightarrow> nat \<Rightarrow> nat \<Rightarrow> bool list \<Rightarrow> path list
     \<Rightarrow> bool list \<times> path list" where
  "inner_loop fs candidateGroup i j processed duplicateGroup =
     (if j < length candidateGroup then
        (if processed ! j then inner_loop fs candidateGroup i (j + 1) processed duplicateGroup
         else if identical fs (candidateGroup ! i) (candidateGroup ! j)
           then inner_loop fs candidateGroup i (j + 1) (processed[j := True])
                  (duplicateGroup @ [candidateGroup ! j])
           else inner_loop fs candidateGroup i (j + 1) processed duplicateGroup)
      else (processed, duplicateGroup))"
  by pat_completeness auto
termination
  by (relation "measure (\<lambda>(fs, cg, i, j, processed, grp). length cg - j)") auto

declare inner_loop.simps [simp del]

text \<open>The loop over \<open>i\<close> (lines 518-541).\<close>

function outer_loop ::
  "filesystem \<Rightarrow> path list \<Rightarrow> nat \<Rightarrow> bool list \<Rightarrow> path list list \<Rightarrow> path list list" where
  "outer_loop fs candidateGroup i processed duplicateGroups =
     (if i < length candidateGroup then
        (if processed ! i then outer_loop fs candidateGroup (i + 1) processed duplicateGroups
         else
           (case inner_loop fs candidateGroup i (i + 1) (processed[i := True])
                   [candidateGroup ! i] of
              (processed', duplicateGroup) \<Rightarrow>
                outer_loop fs candidateGroup (i + 1) processed'
                  (if length duplicateGroup > 1 then duplicateGroups @ [duplicateGroup]
                   else duplicateGroups)))
      else duplicateGroups)"
  by pat_completeness auto
termination
  by (relation "measure (\<lambda>(fs, cg, i, processed, groups). length cg - i)") auto

declare outer_loop.simps [simp del]

definition findExactDuplicates :: "filesystem \<Rightarrow> path list \<Rightarrow> path list list" where
  "findExactDuplicates fs candidateGroup =
     outer_loop fs candidateGroup 0 (replicate (length candidateGroup) False) []"

text \<open>The procedure as the specification words it: the first record not yet
  placed anchors a group, every later record not yet placed that compares
  identical to the anchor joins it, the group is emitted when it has at least
  two members, and the procedure goes on with the records left over.\<close>

function spec_groups :: "('a \<Rightarrow> 'a \<Rightarrow> bool) \<Rightarrow> 'a list \<Rightarrow> 'a list list" where
  "spec_groups same [] = []"
| "spec_groups same (x # xs) =
     (if filter (same x) xs \<noteq> [] then [x # filter (same x) xs] else [])
     @ spec_groups same (filter (\<lambda>y. \<not> same x y) xs)"
  by pat_completeness auto
termination
  by (relation "measure (\<lambda>(same, xs). length xs)") (auto simp: less_Suc_eq_le)

section \<open>Console output and input parsing\<close>

text \<open>What the program prints is kept as a list of lines; a line is named by
  what it says, with the values it shows. The wording (Chinese in the source)
  and the number formatting are left out.\<close>

datatype console_line =
    AutoConfirmed string
  | YesNoPrompt string bool
  | Instructions
  | CommandPrompt
  | GroupList "path list list"
  | SingleGroup "path list" int
  | RetentionPlan "path list list" "nat set list"
  | StrategyMenu
  | InvalidStrategyChoice
  | AppliedToAll string
  | AskGroupNumber
  | AppliedToGroup int string
  | GroupOutOfRange int nat
  | InvalidGroupNumber string
  | CurrentKeep "nat set"
  | InvalidCharacter char
  | FileNumberOutOfRange nat nat
  | PlanUpdated int "nat set"
  | NeedAtLeastOne
  | InvalidInput string
  | FolderStatistics
  | NoDuplicatesSkipped
  | NoDuplicatesHere
  | DeletionSkipped
  | GlobalStatistics
  | NoDuplicatesFound
  | OperationCancelled
  | StartDeleting
  | Deleted nat path
  | WouldDelete nat path
  | DeleteFailed nat path
  | DeletionSummary nat nat u64
  | DryRunNotice

text \<open>\<^verbatim>\<open>::tolower\<close> on the letters of ASCII.\<close>

definition tolower :: "char \<Rightarrow> char" where
  "tolower c =
     (case map_of (zip ''ABCDEFGHIJKLMNOPQRSTUVWXYZ'' ''abcdefghijklmnopqrstuvwxyz'') c of
        Some l \<Rightarrow> l
      | None \<Rightarrow> c)"

definition isspace :: "char \<Rightarrow> bool" where
  "isspace c = (c \<in> set [CHR '' '', CHR 0x09, CHR 0x0A, CHR 0x0B, CHR 0x0C, CHR 0x0D])"

definition isdigit :: "char \<Rightarrow> bool" where
  "isdigit c = (c \<in> set ''0123456789'')"

definition digit_value :: "char \<Rightarrow> nat" where
  "digit_value c =
     (case map_of (zip ''0123456789'' [0, 1, 2, 3, 4, 5, 6, 7, 8, 9]) c of
        Some d \<Rightarrow> d
      | None \<Rightarrow> 0)"

definition decimal_value :: "string \<Rightarrow> int" where
  "decimal_value ds = foldl (\<lambda>a c. 10 * a + int (digit_value c)) 0 ds"

text \<open>An optional sign and the decimal digits that follow it, as
  \<^verbatim>\<open>strtol\<close> and \<^verbatim>\<open>num_get\<close> read them: \<open>None\<close> when no digit is there.\<close>

definition signed_digits :: "string \<Rightarrow> int option" where
  "signed_digits s =
     (let (sign, body) =
            (case s of
               c # r \<Rightarrow> if c = CHR ''-'' then (- 1, r)
                        else if c = CHR ''+'' then (1, r) else (1 :: int, s)
             | [] \<Rightarrow> (1, s));
          ds = takeWhile isdigit body
      in if ds = [] then None else Some (sign * decimal_value ds))"

text \<open>\<^verbatim>\<open>std::stoi\<close> in base 10: leading white space is skipped; without a
  digit it throws \<^verbatim>\<open>std::invalid_argument\<close>, outside the range of
  \<^verbatim>\<open>int\<close> it throws \<^verbatim>\<open>std::out_of_range\<close>; what follows the digits is
  ignored.\<close>

definition stoi :: "string \<Rightarrow> error + int" where
  "stoi str =
     (case signed_digits (dropWhile isspace str) of
        None \<Rightarrow> Inl invalid_argument
      | Some v \<Rightarrow> if v < - (2 ^ 31) \<or> 2 ^ 31 - 1 < v then Inl out_of_range else Inr v)"

text \<open>Lines 397-400: \<^verbatim>\<open>int groupNum; ss >> cmd >> groupNum;\<close>. The first word
  goes to \<open>cmd\<close>. When nothing but white space follows, the extraction of the
  number is not attempted and \<open>groupNum\<close> keeps its uninitialised value, here
  the parameter \<open>junk\<close>; when what follows is not a number, 0 is stored; a
  number outside the range of \<^verbatim>\<open>int\<close> is stored as the nearest bound.\<close>

definition extract_groupNum :: "int \<Rightarrow> string \<Rightarrow> int" where
  "extract_groupNum junk input =
     (let rest = dropWhile isspace
                   (dropWhile (\<lambda>c. \<not> isspace c) (dropWhile isspace input))
      in if rest = [] then junk
         else (case signed_digits rest of
                 None \<Rightarrow> 0
               | Some v \<Rightarrow> max (- (2 ^ 31)) (min (2 ^ 31 - 1) v)))"

section \<open>askForConfirmation (lines 173-191)\<close>

text \<open>The result is the answer, the input left, and what was printed.\<close>

definition askForConfirmation ::
  "bool \<Rightarrow> string \<Rightarrow> bool \<Rightarrow> string list \<Rightarrow> bool \<times> string list \<times> console_line list" where
  "askForConfirmation autoConfirm question defaultYes inp =
     (if autoConfirm then (True, inp, [AutoConfirmed question])
      else
        (case getline inp of
           (response, rest) \<Rightarrow>
             (if response = [] then defaultYes
              else tolower (hd response) = CHR ''y'',
              rest, [YesNoPrompt question defaultYes])))"

section \<open>autoSelectKeepFiles (lines 276-325)\<close>

text \<open>The loops of lines 282-284 and 291-293: the pairs of modification time
  and 1-based index; \<^verbatim>\<open>fs::last_write_time\<close> throws for a path that is not
  there.\<close>

fun last_write_times :: "filesystem \<Rightarrow> path list \<Rightarrow> nat \<Rightarrow> error + (int \<times> nat) list" where
  "last_write_times fs [] i = Inr []"
| "last_write_times fs (p # ps) i =
     (case fs p of
        None \<Rightarrow> Inl (filesystem_error p)
      | Some f \<Rightarrow>
          (case last_write_times fs ps (i + 1) of
             Inl e \<Rightarrow> Inl e
           | Inr times' \<Rightarrow> Inr ((mtime f, i + 1) # times')))"

text \<open>The loop of lines 301-307; \<open>filenameLength\<close> stands for
  \<^verbatim>\<open>group[i].filename().string().length()\<close>, a \<^verbatim>\<open>size_t\<close>.\<close>

fun longest_name_loop :: "(path \<Rightarrow> u64) \<Rightarrow> path list \<Rightarrow> nat \<Rightarrow> u64 \<Rightarrow> nat \<Rightarrow> nat" where
  "longest_name_loop filenameLength [] i maxLength keepIndex = keepIndex"
| "longest_name_loop filenameLength (p # ps) i maxLength keepIndex =
     (if filenameLength p > maxLength
      then longest_name_loop filenameLength ps (i + 1) (filenameLength p) (i + 1)
      else longest_name_loop filenameLength ps (i + 1) maxLength keepIndex)"

text \<open>The loop of lines 314-320.\<close>

fun shortest_name_loop :: "(path \<Rightarrow> u64) \<Rightarrow> path list \<Rightarrow> nat \<Rightarrow> u64 \<Rightarrow> nat \<Rightarrow> nat" where
  "shortest_name_loop filenameLength [] i minLength keepIndex = keepIndex"
| "shortest_name_loop filenameLength (p # ps) i minLength keepIndex =
     (if filenameLength p < minLength
      then shortest_name_loop filenameLength ps (i + 1) (filenameLength p) (i + 1)
      else shortest_name_loop filenameLength ps (i + 1) minLength keepIndex)"

text \<open>\<^verbatim>\<open>std::sort\<close> orders the pairs lexicographically, with
  \<^verbatim>\<open>std::greater\<close> in descending order; the pairs differ in their index, so
  the sorted vector is determined. Reading \<^verbatim>\<open>times[0]\<close> of an empty vector is
  undefined behaviour, here the error \<open>index_out_of_range\<close>.\<close>

definition autoSelectKeepFiles ::
  "(path \<Rightarrow> u64) \<Rightarrow> filesystem \<Rightarrow> path list \<Rightarrow> string \<Rightarrow> error + nat set" where
  "autoSelectKeepFiles filenameLength fs group' strategy =
     (if strategy = ''newest'' then
        (case last_write_times fs group' 0 of
           Inl e \<Rightarrow> Inl e
         | Inr times' \<Rightarrow>
             (case rev (sort times') of
                [] \<Rightarrow> Inl index_out_of_range
              | t # _ \<Rightarrow> Inr {snd t}))
      else if strategy = ''oldest'' then
        (case last_write_times fs group' 0 of
           Inl e \<Rightarrow> Inl e
         | Inr times' \<Rightarrow>
             (case sort times' of
                [] \<Rightarrow> Inl index_out_of_range
              | t # _ \<Rightarrow> Inr {snd t}))
      else if strategy = ''longest-name'' then
        Inr {longest_name_loop filenameLength group' 0 0 1}
      else if strategy = ''shortest-name'' then
        Inr {shortest_name_loop filenameLength group' 0 (- 1) 1}
      else Inr {})"

section \<open>The display functions (lines 194-273)\<close>

text \<open>The display functions only print, but they ask the file system for the
  size and the modification time of what they show, and these calls throw for
  a path that is not there. What is printed before an exception is left out.\<close>

fun first_missing :: "filesystem \<Rightarrow> path list \<Rightarrow> error option" where
  "first_missing fs [] = None"
| "first_missing fs (p # ps) =
     (case fs p of None \<Rightarrow> Some (filesystem_error p) | Some f \<Rightarrow> first_missing fs ps)"

definition displaySingleGroup ::
  "filesystem \<Rightarrow> path list \<Rightarrow> int \<Rightarrow> error + console_line list" where
  "displaySingleGroup fs group' groupIndex =
     (case first_missing fs group' of
        Some e \<Rightarrow> Inl e
      | None \<Rightarrow> Inr [SingleGroup group' groupIndex])"

text \<open>Line 201 reads \<^verbatim>\<open>group[0]\<close>: undefined behaviour for an empty group.\<close>

fun groups_missing :: "filesystem \<Rightarrow> path list list \<Rightarrow> error option" where
  "groups_missing fs [] = None"
| "groups_missing fs (g # gs) =
     (if g = [] then Some index_out_of_range
      else (case first_missing fs g of
              Some e \<Rightarrow> Some e
            | None \<Rightarrow> groups_missing fs gs))"

definition displayDuplicateGroupsWithNumbers ::
  "filesystem \<Rightarrow> path list list \<Rightarrow> error + console_line list" where
  "displayDuplicateGroupsWithNumbers fs duplicateGroups =
     (case groups_missing fs duplicateGroups of
        Some e \<Rightarrow> Inl e
      | None \<Rightarrow> Inr [GroupList duplicateGroups])"

text \<open>\<^verbatim>\<open>displayModifiedRetention\<close> asks for the size of the members that are
  not kept (line 260) and reads \<^verbatim>\<open>keepFiles[groupIndex]\<close> (line 248).\<close>

fun unkept_missing :: "filesystem \<Rightarrow> path list \<Rightarrow> nat \<Rightarrow> nat set \<Rightarrow> error option" where
  "unkept_missing fs [] i keepSet = None"
| "unkept_missing fs (p # ps) i keepSet =
     (if i + 1 \<in> keepSet then unkept_missing fs ps (i + 1) keepSet
      else (case fs p of
              None \<Rightarrow> Some (filesystem_error p)
            | Some f \<Rightarrow> unkept_missing fs ps (i + 1) keepSet))"

fun retention_missing ::
  "filesystem \<Rightarrow> path list list \<Rightarrow> nat \<Rightarrow> nat set list \<Rightarrow> error option" where
  "retention_missing fs [] groupIndex keepFiles = None"
| "retention_missing fs (g # gs) groupIndex keepFiles =
     (if groupIndex < length keepFiles then
        (case unkept_missing fs g 0 (keepFiles ! groupIndex) of
           Some e \<Rightarrow> Some e
         | None \<Rightarrow> retention_missing fs gs (groupIndex + 1) keepFiles)
      else Some index_out_of_range)"

definition displayModifiedRetention ::
  "filesystem \<Rightarrow> path list list \<Rightarrow> nat set list \<Rightarrow> error + console_line list" where
  "displayModifiedRetention fs duplicateGroups keepFiles =
     (case retention_missing fs duplicateGroups 0 keepFiles of
        Some e \<Rightarrow> Inl e
      | None \<Rightarrow> Inr [RetentionPlan duplicateGroups keepFiles])"

section \<open>letUserModifyRetention (lines 328-507)\<close>

text \<open>The strategy menu of lines 378-386 and again 430-438.\<close>

definition chooseStrategy :: "string \<Rightarrow> string \<times> console_line list" where
  "chooseStrategy strategyInput =
     (if strategyInput = ''1'' then (''newest'', [])
      else if strategyInput = ''2'' then (''oldest'', [])
      else if strategyInput = ''3'' then (''longest-name'', [])
      else if strategyInput = ''4'' then (''shortest-name'', [])
      else (''newest'', [InvalidStrategyChoice]))"

text \<open>The loop of lines 388-390.\<close>

fun apply_to_all ::
  "(path \<Rightarrow> u64) \<Rightarrow> filesystem \<Rightarrow> path list list \<Rightarrow> nat \<Rightarrow> string \<Rightarrow> nat set list
     \<Rightarrow> error + nat set list" where
  "apply_to_all filenameLength fs [] i strategy keepFiles = Inr keepFiles"
| "apply_to_all filenameLength fs (g # gs) i strategy keepFiles =
     (case autoSelectKeepFiles filenameLength fs g strategy of
        Inl e \<Rightarrow> Inl e
      | Inr keepSet \<Rightarrow>
          apply_to_all filenameLength fs gs (i + 1) strategy (keepFiles[i := keepSet]))"

text \<open>The loop of lines 472-487 over the characters of the selection. The test
  \<^verbatim>\<open>c < '1' || c > '9'\<close> fails exactly for the nine characters \<open>1\<close> to \<open>9\<close>.\<close>

fun parse_selection :: "nat \<Rightarrow> string \<Rightarrow> nat set \<Rightarrow> bool \<times> nat set \<times> console_line list" where
  "parse_selection groupSize [] newKeepSet = (True, newKeepSet, [])"
| "parse_selection groupSize (c # cs) newKeepSet =
     (if c \<notin> set ''123456789'' then (False, newKeepSet, [InvalidCharacter c])
      else
        (let fileNum = digit_value c in
         if fileNum < 1 \<or> groupSize < fileNum
         then (False, newKeepSet, [FileNumberOutOfRange fileNum groupSize])
         else parse_selection groupSize cs (insert fileNum newKeepSet)))"

text \<open>One pass through the body of \<^verbatim>\<open>while (true)\<close>: the loop is left
  (\<open>Break\<close>), goes on with a retention plan, the input left and what was
  printed (\<open>Continue\<close>), or an exception leaves the function (\<open>Raise\<close>).\<close>

datatype iteration =
    Break
  | Continue "nat set list" "string list" "console_line list"
  | Raise error

text \<open>The command \<open>all\<close> (lines 366-394).\<close>

definition command_all ::
  "(path \<Rightarrow> u64) \<Rightarrow> filesystem \<Rightarrow> path list list \<Rightarrow> nat set list \<Rightarrow> string list
     \<Rightarrow> iteration" where
  "command_all filenameLength fs duplicateGroups keepFiles inp =
     (case getline inp of
        (strategyInput, inp') \<Rightarrow>
     (case chooseStrategy strategyInput of
        (strategy, warning) \<Rightarrow>
     (case apply_to_all filenameLength fs duplicateGroups 0 strategy keepFiles of
        Inl e \<Rightarrow> Raise e
      | Inr keepFiles' \<Rightarrow>
     (case displayModifiedRetention fs duplicateGroups keepFiles' of
        Inl e \<Rightarrow> Raise e
      | Inr shown \<Rightarrow>
          Continue keepFiles' inp'
            ([CommandPrompt, StrategyMenu] @ warning @ [AppliedToAll strategy] @ shown)))))"

text \<open>The command \<open>view\<close> (lines 395-407).\<close>

definition command_view ::
  "filesystem \<Rightarrow> int \<Rightarrow> path list list \<Rightarrow> nat set list \<Rightarrow> string \<Rightarrow> string list
     \<Rightarrow> iteration" where
  "command_view fs junk duplicateGroups keepFiles input inp =
     (let groupNum = extract_groupNum junk input in
      if groupNum < 1 \<or> int (length duplicateGroups) < groupNum
      then Continue keepFiles inp
             [CommandPrompt, GroupOutOfRange groupNum (length duplicateGroups)]
      else
        (case displaySingleGroup fs (duplicateGroups ! nat (groupNum - 1)) groupNum of
           Inl e \<Rightarrow> Raise e
         | Inr shown \<Rightarrow> Continue keepFiles inp (CommandPrompt # shown)))"

text \<open>The command \<open>auto\<close> (lines 408-446). Everything after the first
  \<^verbatim>\<open>getline\<close> stands in a \<^verbatim>\<open>try\<close> block whose handler catches every
  \<^verbatim>\<open>std::exception\<close>, those of the file system included.\<close>

definition command_auto ::
  "(path \<Rightarrow> u64) \<Rightarrow> filesystem \<Rightarrow> path list list \<Rightarrow> nat set list \<Rightarrow> string list
     \<Rightarrow> iteration" where
  "command_auto filenameLength fs duplicateGroups keepFiles inp =
     (case getline inp of
        (groupInput, inp1) \<Rightarrow>
     (case stoi groupInput of
        Inl e \<Rightarrow>
          Continue keepFiles inp1 [CommandPrompt, AskGroupNumber, InvalidGroupNumber groupInput]
      | Inr groupNum \<Rightarrow>
          if groupNum < 1 \<or> int (length duplicateGroups) < groupNum
          then Continue keepFiles inp1
                 [CommandPrompt, AskGroupNumber,
                  GroupOutOfRange groupNum (length duplicateGroups)]
          else
            (case getline inp1 of
               (strategyInput, inp2) \<Rightarrow>
            (case chooseStrategy strategyInput of
               (strategy, warning) \<Rightarrow>
            (case autoSelectKeepFiles filenameLength fs
                    (duplicateGroups ! nat (groupNum - 1)) strategy of
               Inl e \<Rightarrow>
                 Continue keepFiles inp2
                   ([CommandPrompt, AskGroupNumber, StrategyMenu] @ warning
                    @ [InvalidGroupNumber groupInput])
             | Inr keepSet \<Rightarrow>
                 Continue (keepFiles[nat (groupNum - 1) := keepSet]) inp2
                   ([CommandPrompt, AskGroupNumber, StrategyMenu] @ warning
                    @ [AppliedToGroup groupNum strategy]))))))"

text \<open>Any other input is taken as a group number (lines 447-503), again inside
  a \<^verbatim>\<open>try\<close> block that catches every \<^verbatim>\<open>std::exception\<close>.\<close>

definition command_group ::
  "filesystem \<Rightarrow> path list list \<Rightarrow> nat set list \<Rightarrow> string \<Rightarrow> string list \<Rightarrow> iteration" where
  "command_group fs duplicateGroups keepFiles input inp =
     (case stoi input of
        Inl e \<Rightarrow> Continue keepFiles inp [CommandPrompt, InvalidInput input]
      | Inr groupNum \<Rightarrow>
          if groupNum < 1 \<or> int (length duplicateGroups) < groupNum
          then Continue keepFiles inp
                 [CommandPrompt, GroupOutOfRange groupNum (length duplicateGroups)]
          else
            (let group' = duplicateGroups ! nat (groupNum - 1) in
             case displaySingleGroup fs group' groupNum of
               Inl e \<Rightarrow> Continue keepFiles inp [CommandPrompt, InvalidInput input]
             | Inr shown \<Rightarrow>
                 (case getline inp of
                    (selection, inp') \<Rightarrow>
                 (case parse_selection (length group') selection {} of
                    (validInput, newKeepSet, complaints) \<Rightarrow>
                      if validInput \<and> newKeepSet \<noteq> {}
                      then Continue (keepFiles[nat (groupNum - 1) := newKeepSet]) inp'
                             (CommandPrompt # shown
                              @ [CurrentKeep (keepFiles ! nat (groupNum - 1))] @ complaints
                              @ [PlanUpdated groupNum newKeepSet])
                      else if newKeepSet = {}
                      then Continue keepFiles inp'
                             (CommandPrompt # shown
                              @ [CurrentKeep (keepFiles ! nat (groupNum - 1))] @ complaints
                              @ [NeedAtLeastOne])
                      else Continue keepFiles inp'
                             (CommandPrompt # shown
                              @ [CurrentKeep (keepFiles ! nat (groupNum - 1))] @ complaints)))))"

text \<open>The body of the loop (lines 345-504).\<close>

definition loop_body ::
  "(path \<Rightarrow> u64) \<Rightarrow> filesystem \<Rightarrow> int \<Rightarrow> path list list \<Rightarrow> nat set list \<Rightarrow> string list
     \<Rightarrow> iteration" where
  "loop_body filenameLength fs junk duplicateGroups keepFiles inp =
     (case getline inp of
        (input, inp') \<Rightarrow>
          if input = [] then Continue keepFiles inp' [CommandPrompt]
          else
            (let command = map tolower input in
             if command = ''done'' then Break
             else if command = ''list'' then
               (case displayDuplicateGroupsWithNumbers fs duplicateGroups of
                  Inl e \<Rightarrow> Raise e
                | Inr shown \<Rightarrow> Continue keepFiles inp' (CommandPrompt # shown))
             else if command = ''all'' then
               command_all filenameLength fs duplicateGroups keepFiles inp'
             else if take 4 command = ''view'' then
               command_view fs junk duplicateGroups keepFiles input inp'
             else if command = ''auto'' then
               command_auto filenameLength fs duplicateGroups keepFiles inp'
             else command_group fs duplicateGroups keepFiles input inp'))"

text \<open>How a call ends: it returns a value, an exception leaves it, or it never
  returns.\<close>

datatype 'a outcome = Returns 'a | Throws error | NeverReturns

lemma getline_eq: "getline inp = (case inp of [] \<Rightarrow> ([], []) | l # ls \<Rightarrow> (l, ls))"
  by (cases inp) simp_all

lemma getline_rest: "snd (getline inp) = tl inp"
  by (cases inp) simp_all

lemma command_all_consumes:
  "command_all len fs groups keepFiles inp = Continue k inp' shown \<Longrightarrow> inp' = tl inp"
  by (auto simp: command_all_def getline_eq split: prod.splits sum.splits list.splits)

lemma command_view_consumes:
  "command_view fs junk groups keepFiles input inp = Continue k inp' shown \<Longrightarrow> inp' = inp"
  by (auto simp: command_view_def Let_def split: sum.splits if_splits)

lemma command_auto_consumes:
  "command_auto len fs groups keepFiles inp = Continue k inp' shown
     \<Longrightarrow> inp' = tl inp \<or> inp' = tl (tl inp)"
  by (auto simp: command_auto_def getline_eq split: prod.splits sum.splits list.splits if_splits)

lemma command_group_consumes:
  "command_group fs groups keepFiles input inp = Continue k inp' shown
     \<Longrightarrow> inp' = inp \<or> inp' = tl inp"
  by (auto simp: command_group_def getline_eq Let_def
           split: prod.splits sum.splits list.splits if_splits)

lemma loop_body_consumes:
  assumes "loop_body len fs junk groups keepFiles inp = Continue k inp' shown"
  shows "length inp' \<le> length inp - 1"
proof -
  have "inp' = tl inp \<or> inp' = tl (tl inp) \<or> inp' = tl (tl (tl inp))"
    using assms
    by (auto simp: loop_body_def getline_eq Let_def
             dest!: command_all_consumes command_view_consumes command_auto_consumes
                    command_group_consumes
             split: prod.splits sum.splits list.splits if_splits)
  then show ?thesis by (cases inp) (auto simp: le_diff_conv)
qed

text \<open>The \<^verbatim>\<open>while (true)\<close> loop. At the end of the input every
  \<^verbatim>\<open>getline\<close> leaves the line empty, the body takes the \<^verbatim>\<open>continue\<close> of line
  353, and the loop never ends.\<close>

function retention_loop ::
  "(path \<Rightarrow> u64) \<Rightarrow> filesystem \<Rightarrow> int \<Rightarrow> path list list \<Rightarrow> nat set list \<Rightarrow> string list
     \<Rightarrow> console_line list
     \<Rightarrow> (nat set list \<times> string list \<times> console_line list) outcome" where
  "retention_loop filenameLength fs junk duplicateGroups keepFiles inp printed =
     (if inp = [] then NeverReturns
      else
        (case loop_body filenameLength fs junk duplicateGroups keepFiles inp of
           Break \<Rightarrow> Returns (keepFiles, tl inp, printed @ [CommandPrompt])
         | Raise e \<Rightarrow> Throws e
         | Continue keepFiles' inp' shown \<Rightarrow>
             retention_loop filenameLength fs junk duplicateGroups keepFiles' inp'
               (printed @ shown)))"
  by pat_completeness auto
termination
proof (relation "measure (\<lambda>(len, fs, junk, groups, keepFiles, inp, printed). length inp)",
    goal_cases)
  case 1
  show ?case by simp
next
  case (2 filenameLength fs junk duplicateGroups keepFiles inp printed keepFiles' inp' shown)
  from loop_body_consumes[OF 2(2)] 2(1) show ?case
    by (cases inp) simp_all
qed

declare retention_loop.simps [simp del]

text \<open>The function: the default plan keeps member 1 of every group (lines
  329-334), then the loop runs. The result is the plan, the input left and what
  was printed.\<close>

definition letUserModifyRetention ::
  "(path \<Rightarrow> u64) \<Rightarrow> filesystem \<Rightarrow> int \<Rightarrow> path list list \<Rightarrow> string list
     \<Rightarrow> (nat set list \<times> string list \<times> console_line list) outcome" where
  "letUserModifyRetention filenameLength fs junk duplicateGroups inp =
     retention_loop filenameLength fs junk duplicateGroups
       (replicate (length duplicateGroups) {1}) inp [Instructions]"

section \<open>The deleters (lines 895-943 and 948-995)\<close>

text \<open>The state of a deletion run: the file system, the paths handed to
  \<^verbatim>\<open>fs::remove\<close> so far, the three counters and what was printed.\<close>

record deletion_state =
  fsys :: filesystem
  removeCalls :: "path list"
  successfullyDeleted :: nat
  failedToDelete :: nat
  actualSpaceSaved :: u64
  printed :: "console_line list"

text \<open>\<^verbatim>\<open>fs::remove\<close>: the file is gone afterwards, or the call throws; for a
  path that is not there it does nothing.\<close>

definition fs_remove :: "filesystem \<Rightarrow> path \<Rightarrow> error + filesystem" where
  "fs_remove fs p =
     (case fs p of
        None \<Rightarrow> Inr fs
      | Some f \<Rightarrow> if can_remove f then Inr (fs(p := None)) else Inl (filesystem_error p))"

text \<open>The loop over the members of one group (lines 908-926 and 960-978).
  \<^verbatim>\<open>getFileSize\<close> stands before the \<^verbatim>\<open>try\<close>: its exception ends the run.\<close>

fun delete_members ::
  "bool \<Rightarrow> path list \<Rightarrow> nat \<Rightarrow> nat set \<Rightarrow> deletion_state \<Rightarrow> error option \<times> deletion_state" where
  "delete_members dryRun [] i keepSet st = (None, st)"
| "delete_members dryRun (p # ps) i keepSet st =
     (if i + 1 \<notin> keepSet then
        (case getFileSize (fsys st) p of
           Inl e \<Rightarrow> (Some e, st)
         | Inr fileSize \<Rightarrow>
             if \<not> dryRun then
               (case fs_remove (fsys st) p of
                  Inl e \<Rightarrow>
                    delete_members dryRun ps (i + 1) keepSet
                      (st\<lparr>removeCalls := removeCalls st @ [p],
                          failedToDelete := failedToDelete st + 1,
                          printed := printed st @ [DeleteFailed (i + 1) p]\<rparr>)
                | Inr fs' \<Rightarrow>
                    delete_members dryRun ps (i + 1) keepSet
                      (st\<lparr>fsys := fs',
                          removeCalls := removeCalls st @ [p],
                          successfullyDeleted := successfullyDeleted st + 1,
                          actualSpaceSaved := actualSpaceSaved st + fileSize,
                          printed := printed st @ [Deleted (i + 1) p]\<rparr>))
             else
               delete_members dryRun ps (i + 1) keepSet
                 (st\<lparr>successfullyDeleted := successfullyDeleted st + 1,
                     actualSpaceSaved := actualSpaceSaved st + fileSize,
                     printed := printed st @ [WouldDelete (i + 1) p]\<rparr>))
      else delete_members dryRun ps (i + 1) keepSet st)"

text \<open>The loop over the groups (lines 904-927 and 956-979). Reading
  \<^verbatim>\<open>keepFiles[groupIndex]\<close> past the end of the vector is undefined behaviour,
  here the error \<open>index_out_of_range\<close>.\<close>

fun delete_groups ::
  "bool \<Rightarrow> path list list \<Rightarrow> nat \<Rightarrow> nat set list \<Rightarrow> deletion_state
     \<Rightarrow> error option \<times> deletion_state" where
  "delete_groups dryRun [] groupIndex keepFiles st = (None, st)"
| "delete_groups dryRun (g # gs) groupIndex keepFiles st =
     (if groupIndex < length keepFiles then
        (case delete_members dryRun g 0 (keepFiles ! groupIndex) st of
           (Some e, st') \<Rightarrow> (Some e, st')
         | (None, st') \<Rightarrow> delete_groups dryRun gs (groupIndex + 1) keepFiles st')
      else (Some index_out_of_range, st))"

definition deletion_report :: "bool \<Rightarrow> deletion_state \<Rightarrow> console_line list" where
  "deletion_report dryRun st =
     [DeletionSummary (successfullyDeleted st) (failedToDelete st) (actualSpaceSaved st)]
     @ (if dryRun then [DryRunNotice] else [])"

definition performDeletionWithCustomRetention ::
  "bool \<Rightarrow> filesystem \<Rightarrow> path list list \<Rightarrow> nat set list \<Rightarrow> error option \<times> deletion_state" where
  "performDeletionWithCustomRetention dryRun fs duplicateGroups keepFiles =
     (case delete_groups dryRun duplicateGroups 0 keepFiles
             \<lparr>fsys = fs, removeCalls = [], successfullyDeleted = 0, failedToDelete = 0,
              actualSpaceSaved = 0, printed = [StartDeleting]\<rparr> of
        (Some e, st) \<Rightarrow> (Some e, st)
      | (None, st) \<Rightarrow> (None, st\<lparr>printed := printed st @ deletion_report dryRun st\<rparr>))"

text \<open>The global deleter has the same body; its third argument
  \<open>totalSpaceSaved\<close> is not read.\<close>

definition performGlobalDeletionWithCustomRetention ::
  "bool \<Rightarrow> filesystem \<Rightarrow> path list list \<Rightarrow> nat set list \<Rightarrow> u64
     \<Rightarrow> error option \<times> deletion_state" where
  "performGlobalDeletionWithCustomRetention dryRun fs duplicateGroups keepFiles totalSpaceSaved =
     (case delete_groups dryRun duplicateGroups 0 keepFiles
             \<lparr>fsys = fs, removeCalls = [], successfullyDeleted = 0, failedToDelete = 0,
              actualSpaceSaved = 0, printed = [StartDeleting]\<rparr> of
        (Some e, st) \<Rightarrow> (Some e, st)
      | (None, st) \<Rightarrow> (None, st\<lparr>printed := printed st @ deletion_report dryRun st\<rparr>))"

section \<open>processSingleFolder (lines 601-674)\<close>

text \<open>The questions of lines 651 and 665, each named after the variable that receives
  the answer.\<close>

definition customize_question :: string where
  "customize_question = ''customizeRetention''"

definition delete_question :: string where
  "delete_question = ''confirmDelete''"

text \<open>The loop of lines 627-632 asks for the size of \<^verbatim>\<open>group[0]\<close> of every group.\<close>

fun anchors_missing :: "filesystem \<Rightarrow> path list list \<Rightarrow> error option" where
  "anchors_missing fs [] = None"
| "anchors_missing fs (g # gs) =
     (if g = [] then Some index_out_of_range
      else (case getFileSize fs (hd g) of
              Inl e \<Rightarrow> Some e
            | Inr fileSize \<Rightarrow> anchors_missing fs gs))"

text \<open>Lines 651-662: the retention plan, from the operator or the default one.\<close>

definition choose_retention ::
  "bool \<Rightarrow> (path \<Rightarrow> u64) \<Rightarrow> filesystem \<Rightarrow> int \<Rightarrow> path list list \<Rightarrow> string list
     \<Rightarrow> (nat set list \<times> string list \<times> console_line list) outcome" where
  "choose_retention customizeRetention filenameLength fs junk duplicateGroups inp =
     (if customizeRetention then
        (case letUserModifyRetention filenameLength fs junk duplicateGroups inp of
           Returns (keepFiles, inp', shown) \<Rightarrow>
             (case displayModifiedRetention fs duplicateGroups keepFiles of
                Inl e \<Rightarrow> Throws e
              | Inr plan \<Rightarrow> Returns (keepFiles, inp', shown @ plan))
         | Throws e \<Rightarrow> Throws e
         | NeverReturns \<Rightarrow> NeverReturns)
      else Returns (replicate (length duplicateGroups) {1}, inp, []))"

text \<open>The function from the point where \<^verbatim>\<open>findDuplicatesInFolder\<close> has returned
  without an error (line 620); the groups it found are the argument
  \<open>duplicateGroups\<close>. The result is the file system afterwards, the paths handed to
  \<^verbatim>\<open>fs::remove\<close>, the input left and what was printed.\<close>

definition processSingleFolder ::
  "bool \<Rightarrow> bool \<Rightarrow> bool \<Rightarrow> (path \<Rightarrow> u64) \<Rightarrow> filesystem \<Rightarrow> int \<Rightarrow> path list list \<Rightarrow> string list
     \<Rightarrow> (filesystem \<times> path list \<times> string list \<times> console_line list) outcome" where
  "processSingleFolder autoConfirm dryRun skipEmptyFolders filenameLength fs junk
       duplicateGroups inp =
     (case anchors_missing fs duplicateGroups of
        Some e \<Rightarrow> Throws e
      | None \<Rightarrow>
          if duplicateGroups = [] then
            Returns (fs, [], inp,
              [FolderStatistics,
               if skipEmptyFolders then NoDuplicatesSkipped else NoDuplicatesHere])
          else
            (case displayDuplicateGroupsWithNumbers fs duplicateGroups of
               Inl e \<Rightarrow> Throws e
             | Inr listing \<Rightarrow>
                 (case askForConfirmation autoConfirm customize_question False inp of
                    (customizeRetention, inp1, asked1) \<Rightarrow>
                 (case choose_retention customizeRetention filenameLength fs junk
                         duplicateGroups inp1 of
                    Throws e \<Rightarrow> Throws e
                  | NeverReturns \<Rightarrow> NeverReturns
                  | Returns (keepFiles, inp2, shown) \<Rightarrow>
                 (case askForConfirmation autoConfirm delete_question False inp2 of
                    (confirmDelete, inp3, asked2) \<Rightarrow>
                      if \<not> confirmDelete then
                        Returns (fs, [], inp3,
                          FolderStatistics # listing @ asked1 @ shown @ asked2
                          @ [DeletionSkipped])
                      else
                        (case performDeletionWithCustomRetention dryRun fs duplicateGroups
                                keepFiles of
                           (Some e, st) \<Rightarrow> Throws e
                         | (None, st) \<Rightarrow>
                             Returns (fsys st, removeCalls st, inp3,
                               FolderStatistics # listing @ asked1 @ shown @ asked2
                               @ printed st)))))))"

section \<open>deduplicate in global mode (lines 759-816)\<close>

text \<open>The questions of lines 795 and 809; both begin with a line feed.\<close>

definition global_customize_question :: string where
  "global_customize_question = CHR 0x0A # customize_question"

definition global_delete_question :: string where
  "global_delete_question = CHR 0x0A # ''confirmDelete (all)''"

text \<open>The loop of lines 776-781: \<^verbatim>\<open>totalSpaceSaved\<close>, a \<^verbatim>\<open>uintmax_t\<close>, grows by the
  size of \<^verbatim>\<open>group[0]\<close> times the number of the other members.\<close>

fun space_savable :: "filesystem \<Rightarrow> path list list \<Rightarrow> u64 \<Rightarrow> error + u64" where
  "space_savable fs [] totalSpaceSaved = Inr totalSpaceSaved"
| "space_savable fs (g # gs) totalSpaceSaved =
     (if g = [] then Inl index_out_of_range
      else (case getFileSize fs (hd g) of
              Inl e \<Rightarrow> Inl e
            | Inr fileSize \<Rightarrow>
                space_savable fs gs
                  (totalSpaceSaved + fileSize * (of_nat (length g) - 1))))"

text \<open>The \<^verbatim>\<open>else\<close> branch of \<^verbatim>\<open>deduplicate\<close> from the point where
  \<^verbatim>\<open>findDuplicatesInFolderRecursive\<close> has returned without an error (line 768);
  the groups it found are the argument \<open>duplicateGroups\<close>. The result is as for
  \<open>processSingleFolder\<close>.\<close>

definition deduplicate_global ::
  "bool \<Rightarrow> bool \<Rightarrow> (path \<Rightarrow> u64) \<Rightarrow> filesystem \<Rightarrow> int \<Rightarrow> path list list \<Rightarrow> string list
     \<Rightarrow> (filesystem \<times> path list \<times> string list \<times> console_line list) outcome" where
  "deduplicate_global autoConfirm dryRun filenameLength fs junk duplicateGroups inp =
     (case space_savable fs duplicateGroups 0 of
        Inl e \<Rightarrow> Throws e
      | Inr totalSpaceSaved \<Rightarrow>
          if duplicateGroups = [] then
            Returns (fs, [], inp, [GlobalStatistics, NoDuplicatesFound])
          else
            (case displayDuplicateGroupsWithNumbers fs duplicateGroups of
               Inl e \<Rightarrow> Throws e
             | Inr listing \<Rightarrow>
                 (case askForConfirmation autoConfirm global_customize_question False inp of
                    (customizeRetention, inp1, asked1) \<Rightarrow>
                 (case choose_retention customizeRetention filenameLength fs junk
                         duplicateGroups inp1 of
                    Throws e \<Rightarrow> Throws e
                  | NeverReturns \<Rightarrow> NeverReturns
                  | Returns (keepFiles, inp2, shown) \<Rightarrow>
                 (case askForConfirmation autoConfirm global_delete_question False inp2 of
                    (confirmDelete, inp3, asked2) \<Rightarrow>
                      if \<not> confirmDelete then
                        Returns (fs, [], inp3,
                          GlobalStatistics # listing @ asked1 @ shown @ asked2
                          @ [OperationCancelled])
                      else
                        (case performGlobalDeletionWithCustomRetention dryRun fs
                                duplicateGroups keepFiles totalSpaceSaved of
                           (Some e, st) \<Rightarrow> Throws e
                         | (None, st) \<Rightarrow>
                             Returns (fsys st, removeCalls st, inp3,
                               GlobalStatistics # listing @ asked1 @ shown @ asked2
                               @ printed st)))))))"

section \<open>Notions used in the statements\<close>

text \<open>Every candidate that is there is shorter than \<open>2^64\<close> bytes, as any file
  whose length \<^verbatim>\<open>fs::file_size\<close> reports in a \<^verbatim>\<open>uintmax_t\<close> is.\<close>

definition sizes_fit :: "filesystem \<Rightarrow> path list \<Rightarrow> bool" where
  "sizes_fit fs ps =
     list_all (\<lambda>p. case fs p of None \<Rightarrow> True | Some f \<Rightarrow> length (content f) < 2 ^ 64) ps"

text \<open>A byte-level comparison of two paths: both files are there and hold the
  same bytes.\<close>

definition byte_identical :: "filesystem \<Rightarrow> path \<Rightarrow> path \<Rightarrow> bool" where
  "byte_identical fs p q =
     (case (fs p, fs q) of (Some a, Some b) \<Rightarrow> content a = content b | _ \<Rightarrow> False)"

text \<open>The records of \<open>cg\<close> from index \<open>i\<close> on that are not marked processed.\<close>

definition pending :: "'a list \<Rightarrow> bool list \<Rightarrow> nat \<Rightarrow> 'a list" where
  "pending cg processed i = map (\<lambda>k. cg ! k) (filter (\<lambda>k. \<not> processed ! k) [i ..< length cg])"

text \<open>The lines a simulated deletion prints.\<close>

fun is_simulation_line :: "console_line \<Rightarrow> bool" where
  "is_simulation_line StartDeleting = True"
| "is_simulation_line (WouldDelete n p) = True"
| "is_simulation_line (DeletionSummary a b c) = True"
| "is_simulation_line DryRunNotice = True"
| "is_simulation_line other = False"

text \<open>A deletion run that has left the file system \<open>fs\<close> as it was: the same
  files with the same bytes and times, no call of \<^verbatim>\<open>fs::remove\<close>, no failed
  deletion, and only the lines of a simulation printed.\<close>

definition untouched :: "filesystem \<Rightarrow> deletion_state \<Rightarrow> bool" where
  "untouched fs st =
     (fsys st = fs \<and> removeCalls st = [] \<and> failedToDelete st = 0
      \<and> list_all is_simulation_line (printed st))"

text \<open>The modification time of the file at a path.\<close>

definition mtime_of :: "filesystem \<Rightarrow> path \<Rightarrow> int" where
  "mtime_of fs p = (case fs p of Some f \<Rightarrow> mtime f | None \<Rightarrow> 0)"

text \<open>Tie-breaking over the list \<open>vs\<close> of the members' values, \<open>k\<close> a 1-based
  index: member \<open>k\<close> has the least (greatest) value and no member before it
  (\<open>first_min\<close>, \<open>first_max\<close>) or after it (\<open>last_max\<close>) has the same value.\<close>

definition first_min :: "'a::linorder list \<Rightarrow> nat \<Rightarrow> bool" where
  "first_min vs k =
     (1 \<le> k \<and> k \<le> length vs \<and> list_all (\<lambda>v. vs ! (k - 1) \<le> v) vs
      \<and> list_all (\<lambda>v. v \<noteq> vs ! (k - 1)) (take (k - 1) vs))"

definition first_max :: "'a::linorder list \<Rightarrow> nat \<Rightarrow> bool" where
  "first_max vs k =
     (1 \<le> k \<and> k \<le> length vs \<and> list_all (\<lambda>v. v \<le> vs ! (k - 1)) vs
      \<and> list_all (\<lambda>v. v \<noteq> vs ! (k - 1)) (take (k - 1) vs))"

definition last_max :: "'a::linorder list \<Rightarrow> nat \<Rightarrow> bool" where
  "last_max vs k =
     (1 \<le> k \<and> k \<le> length vs \<and> list_all (\<lambda>v. v \<le> vs ! (k - 1)) vs
      \<and> list_all (\<lambda>v. v \<noteq> vs ! (k - 1)) (drop k vs))"

text \<open>The invariant of a retention plan: every \<open>keep[g]\<close> is a non-empty subset of
  \<open>{1..|group g|}\<close>.\<close>

definition valid_keep_set :: "path list \<Rightarrow> nat set \<Rightarrow> bool" where
  "valid_keep_set group' keepSet = (keepSet \<noteq> {} \<and> keepSet \<subseteq> {1 .. length group'})"

definition known_strategies :: "string set" where
  "known_strategies = {''newest'', ''oldest'', ''longest-name'', ''shortest-name''}"

text \<open>A file-name length for the examples: the length of the whole path.\<close>

definition example_length :: "path \<Rightarrow> u64" where
  "example_length p = of_nat (length p)"

text \<open>The members a plan does not keep: those of one group, counted from
  \<open>i + 1\<close>, and those of all groups.\<close>

fun unkept_members :: "path list \<Rightarrow> nat \<Rightarrow> nat set \<Rightarrow> path list" where
  "unkept_members [] i keepSet = []"
| "unkept_members (p # ps) i keepSet =
     (if i + 1 \<notin> keepSet then [p] else []) @ unkept_members ps (i + 1) keepSet"

fun unkept_groups :: "path list list \<Rightarrow> nat \<Rightarrow> nat set list \<Rightarrow> path list" where
  "unkept_groups [] groupIndex keepFiles = []"
| "unkept_groups (g # gs) groupIndex keepFiles =
     (if groupIndex < length keepFiles then unkept_members g 0 (keepFiles ! groupIndex) else [])
     @ unkept_groups gs (groupIndex + 1) keepFiles"

text \<open>The invariant for a whole plan: one valid keep set for every group.\<close>

definition keep_ok :: "path list list \<Rightarrow> nat set list \<Rightarrow> bool" where
  "keep_ok duplicateGroups keepFiles = list_all2 valid_keep_set duplicateGroups keepFiles"

text \<open>The lines with which the loop rejects an input (the messages that begin with
  the word for "error" in lines 405-503).\<close>

fun is_complaint :: "console_line \<Rightarrow> bool" where
  "is_complaint (InvalidInput s) = True"
| "is_complaint (GroupOutOfRange n m) = True"
| "is_complaint (InvalidGroupNumber s) = True"
| "is_complaint (InvalidCharacter c) = True"
| "is_complaint (FileNumberOutOfRange n m) = True"
| "is_complaint NeedAtLeastOne = True"
| "is_complaint other = False"

text \<open>A selection that the loop of lines 472-487 accepts and that selects a member: it
  is not empty, and each of its characters is one of \<open>1\<close> to \<open>9\<close> and at most the size of
  the group.\<close>

definition selection_ok :: "nat \<Rightarrow> string \<Rightarrow> bool" where
  "selection_ok groupSize selection =
     (selection \<noteq> []
      \<and> list_all (\<lambda>c. c \<in> set ''123456789'' \<and> digit_value c \<le> groupSize) selection)"

text \<open>The inputs that reach the last branch of the loop (line 447), where the line is
  read as a group number.\<close>

definition takes_group_number :: "string \<Rightarrow> bool" where
  "takes_group_number input =
     (input \<noteq> [] \<and> map tolower input \<notin> {''done'', ''list'', ''all'', ''auto''}
      \<and> take 4 (map tolower input) \<noteq> ''view'')"

text \<open>Every candidate is there and can be opened for reading.\<close>

definition readable :: "filesystem \<Rightarrow> path list \<Rightarrow> bool" where
  "readable fs ps = list_all (\<lambda>p. case fs p of None \<Rightarrow> False | Some f \<Rightarrow> can_open f) ps"

section \<open>Example inputs\<close>

definition example_fs :: filesystem where
  "example_fs =
     [''a'' \<mapsto> \<lparr>content = [1, 2, 3], mtime = 10, can_open = True, can_remove = True\<rparr>,
      ''b'' \<mapsto> \<lparr>content = [1, 2, 3], mtime = 20, can_open = True, can_remove = True\<rparr>,
      ''c'' \<mapsto> \<lparr>content = [1, 2, 4], mtime = 20, can_open = True, can_remove = False\<rparr>,
      ''d'' \<mapsto> \<lparr>content = [1, 2, 3, 4, 5, 6, 7], mtime = 30, can_open = True, can_remove = True\<rparr>]"

section \<open>Properties of the byte-exact comparison\<close>

lemma u64_of_length:
  assumes "n < 2 ^ 64"
  shows "unat (of_nat n :: u64) = n"
  using assms by (simp add: unat_of_nat)

lemma u64_of_length_eq:
  assumes "m < 2 ^ 64" "n < 2 ^ 64"
  shows "((of_nat m :: u64) = of_nat n) = (m = n)"
  using assms by (metis u64_of_length)

lemma u64_of_length_0:
  assumes "n < 2 ^ 64"
  shows "((of_nat n :: u64) = 0) = (n = 0)"
  using u64_of_length_eq[OF assms, of 0] by simp

lemma compare_blocks_correct:
  assumes "length c1 = unat size1" "length c2 = unat size1" "totalRead \<le> size1"
    "take (unat totalRead) c1 = take (unat totalRead) c2"
  shows "snd (compare_blocks file1 file2 c1 c2 size1 totalRead tr) = (c1 = c2)"
  using assms
proof (induction file1 file2 c1 c2 size1 totalRead tr rule: compare_blocks.induct)
  case (1 file1 file2 c1 c2 size1 totalRead tr)
  show ?case
  proof (cases "totalRead < size1")
    case False
    with "1.prems" have "totalRead = size1" by simp
    with "1.prems" have "c1 = c2" by simp
    with False show ?thesis by (simp add: compare_blocks.simps[of _ _ _ _ size1 totalRead])
  next
    case True
    note lt = this
    define toRead where "toRead = min bufferSize (size1 - totalRead)"
    define buffer1 where "buffer1 = take (unat toRead) (drop (unat totalRead) c1)"
    define buffer2 where "buffer2 = take (unat toRead) (drop (unat totalRead) c2)"
    define tr' where "tr' = tr @ [ReadBlock file1 totalRead toRead, ReadBlock file2 totalRead toRead]"
    have step: "compare_blocks file1 file2 c1 c2 size1 totalRead tr =
      (if length buffer1 \<noteq> length buffer2 \<or> length buffer1 \<noteq> unat toRead then (tr', False)
       else if buffer1 \<noteq> buffer2 then (tr', False)
       else compare_blocks file1 file2 c1 c2 size1 (totalRead + toRead) tr')"
      unfolding compare_blocks.simps[of _ _ c1 c2 size1 totalRead] Let_def
        toRead_def buffer1_def buffer2_def tr'_def
      using lt by (simp only: if_True)
    note st = toRead_step[OF lt, folded toRead_def]
    have l1: "length buffer1 = unat toRead" and l2: "length buffer2 = unat toRead"
      using st "1.prems" by (simp_all add: buffer1_def buffer2_def)
    show ?thesis
    proof (cases "buffer1 = buffer2")
      case False
      then have "c1 \<noteq> c2" by (auto simp: buffer1_def buffer2_def)
      with False l1 l2 show ?thesis by (simp add: step)
    next
      case True
      note eq = this
      have le': "totalRead + toRead \<le> size1"
        using st by (simp add: word_le_nat_alt)
      have "take (unat totalRead + unat toRead) c1 = take (unat totalRead + unat toRead) c2"
        using eq "1.prems"(4) by (simp add: take_add buffer1_def buffer2_def)
      then have pre: "take (unat (totalRead + toRead)) c1 = take (unat (totalRead + toRead)) c2"
        using st by simp
      have "snd (compare_blocks file1 file2 c1 c2 size1 (totalRead + toRead) tr') = (c1 = c2)"
        using "1.IH"[OF lt toRead_def buffer1_def buffer2_def tr'_def _ _ "1.prems"(1,2) le' pre]
          l1 l2 eq by simp
      with eq l1 l2 show ?thesis by (simp add: step)
    qed
  qed
qed

lemma areFilesIdentical_differ:
  assumes f1: "fs file1 = Some f1" and f2: "fs file2 = Some f2"
    and n1: "length (content f1) < 2 ^ 64" and n2: "length (content f2) < 2 ^ 64"
    and ne: "length (content f1) \<noteq> length (content f2)"
  shows "areFilesIdentical fs file1 file2 = ([], Inr False)"
  using f1 f2 ne u64_of_length_eq[OF n1 n2]
  by (simp add: areFilesIdentical_def getFileSize_def)

lemma areFilesIdentical_empty:
  assumes f1: "fs file1 = Some f1" and f2: "fs file2 = Some f2"
    and e1: "content f1 = []" and e2: "content f2 = []"
  shows "areFilesIdentical fs file1 file2 = ([], Inr True)"
  using assms by (simp add: areFilesIdentical_def getFileSize_def)

lemma areFilesIdentical_exact:
  assumes f1: "fs file1 = Some f1" and f2: "fs file2 = Some f2"
    and n1: "length (content f1) < 2 ^ 64" and n2: "length (content f2) < 2 ^ 64"
  shows "snd (areFilesIdentical fs file1 file2) =
           Inr (content f1 = content f2 \<and> (content f1 = [] \<or> can_open f1 \<and> can_open f2))"
proof -
  let ?s1 = "of_nat (length (content f1)) :: u64"
  let ?s2 = "of_nat (length (content f2)) :: u64"
  have sz: "getFileSize fs file1 = Inr ?s1" "getFileSize fs file2 = Inr ?s2"
    using f1 f2 by (simp_all add: getFileSize_def)
  have seq: "(?s1 = ?s2) = (length (content f1) = length (content f2))"
    by (rule u64_of_length_eq[OF n1 n2])
  have s0: "(?s1 = 0) = (content f1 = [])"
    using u64_of_length_0[OF n1] by simp
  show ?thesis
  proof (cases "length (content f1) = length (content f2)")
    case False
    then have "content f1 \<noteq> content f2" by auto
    with areFilesIdentical_differ[OF f1 f2 n1 n2 False] show ?thesis by simp
  next
    case True
    note len = this
    show ?thesis
    proof (cases "content f1 = []")
      case True
      with len have "content f2 = []" by simp
      with True areFilesIdentical_empty[OF f1 f2] show ?thesis by simp
    next
      case False
      note ne = this
      show ?thesis
      proof (cases "can_open f1 \<and> can_open f2")
        case False
        then show ?thesis
          using ne len seq s0 f1 f2
          by (auto simp: areFilesIdentical_def sz ifstream_def)
      next
        case True
        have "snd (compare_blocks file1 file2 (content f1) (content f2) ?s1 0
                [OpenFile file1, OpenFile file2]) = (content f1 = content f2)"
          by (rule compare_blocks_correct)
             (use len n1 n2 in \<open>simp_all add: u64_of_length\<close>)
        then show ?thesis
          using True ne len seq s0 f1 f2
          by (auto simp: areFilesIdentical_def sz ifstream_def split: prod.splits)
      qed
    qed
  qed
qed

text \<open>
  Claim C2. For two files that are there, \<^verbatim>\<open>areFilesIdentical\<close> answers true
  exactly when they have the same length and the same byte at every offset,
  that is, the same content; the one exception the source writes out is a
  non-empty file that cannot be opened, for which the answer is false. Two
  empty files compare equal with no file opened and no byte read, and files of
  different lengths compare unequal, again with nothing read.
\<close>

theorem areFilesIdentical_contract:
  assumes f1: "fs file1 = Some f1" and f2: "fs file2 = Some f2"
    and n1: "length (content f1) < 2 ^ 64" and n2: "length (content f2) < 2 ^ 64"
  shows "snd (areFilesIdentical fs file1 file2) =
           Inr (content f1 = content f2 \<and> (content f1 = [] \<or> can_open f1 \<and> can_open f2))
       \<and> (can_open f1 \<and> can_open f2 \<longrightarrow>
            snd (areFilesIdentical fs file1 file2) = Inr (content f1 = content f2))
       \<and> (content f1 = [] \<and> content f2 = [] \<longrightarrow>
            areFilesIdentical fs file1 file2 = ([], Inr True))
       \<and> (length (content f1) \<noteq> length (content f2) \<longrightarrow>
            areFilesIdentical fs file1 file2 = ([], Inr False))"
  using areFilesIdentical_exact[OF assms] areFilesIdentical_empty[OF f1 f2]
    areFilesIdentical_differ[OF assms]
  by auto

theorem areFilesIdentical_contract_witness:
  "snd (areFilesIdentical example_fs ''a'' ''b'') = Inr True
   \<and> snd (areFilesIdentical example_fs ''a'' ''c'') = Inr False"
  using areFilesIdentical_contract[of example_fs "''a''" _ "''b''"]
    areFilesIdentical_contract[of example_fs "''a''" _ "''c''"]
  by (simp add: example_fs_def)

section \<open>Properties of the sparse fingerprint\<close>

lemma simpleHash_step:
  fixes h :: u32 and b :: byte
  shows "unat (h * 31 + ucast b) = (unat h * 31 + unat b) mod 2 ^ 32"
proof -
  have "unat (ucast b :: u32) = unat b"
    by (simp add: unsigned_ucast_eq take_bit_nat_eq_self_iff)
       (rule order_less_trans[OF unsigned_less], simp)
  then show ?thesis
    by (simp add: unat_word_ariths mod_add_left_eq)
qed

lemma foldl_simpleHash:
  "unat (foldl (\<lambda>h b. h * 31 + ucast b) (h0 :: u32) (bs :: byte list))
     = foldl (\<lambda>h b. (h * 31 + unat b) mod 2 ^ 32) (unat h0) bs"
  by (induction bs arbitrary: h0) (simp_all add: simpleHash_step)

lemma simpleHash_spec: "unat (simpleHash bs) = spec_hash bs"
  using foldl_simpleHash[of 0 bs] by (simp add: simpleHash_def spec_hash_def)

lemma distinct_remdups_adj_sorted:
  fixes xs :: "'a::linorder list"
  shows "sorted xs \<Longrightarrow> distinct (remdups_adj xs)"
proof (induction xs rule: remdups_adj.induct)
  case (3 x y xs)
  show ?case
  proof (cases "x = y")
    case True
    with 3 show ?thesis by simp
  next
    case False
    with "3.prems" have "x \<notin> set (y # xs)" by auto
    with False 3 show ?thesis by simp
  qed
qed simp_all

lemma sort_unique_unat:
  fixes xs :: "u64 list"
  shows "map unat (remdups_adj (sort xs)) = sorted_list_of_set (set (map unat xs))"
proof -
  let ?ys = "remdups_adj (sort xs)"
  have s: "sorted ?ys" by simp
  have d: "distinct ?ys" by (simp add: distinct_remdups_adj_sorted)
  have "sorted (map unat ?ys)"
    using s by (simp add: sorted_map sorted_wrt_iff_nth_less word_le_nat_alt)
  moreover have "distinct (map unat ?ys)"
    using d by (auto simp: distinct_map inj_on_def word_unat_eq_iff)
  moreover have "set (map unat ?ys) = set (map unat xs)" by simp
  ultimately show ?thesis
    by (intro sorted_distinct_set_unique) simp_all
qed

lemma unat_min: "unat (min a b) = min (unat a) (unat b)"
  by (simp add: min_def word_le_nat_alt)

lemma spec_offsets_set:
  "set (spec_offsets sp ss N) =
     {0} \<union> (\<lambda>i. N * i div (sp + 1)) ` {1 .. sp} \<union> {N - min ss N}"
  unfolding spec_offsets_def by (rule set_sorted_list_of_set) simp

lemma spec_offsets_le:
  assumes "p \<in> set (spec_offsets sp ss N)"
  shows "p \<le> N"
proof -
  have "N * i div (sp + 1) \<le> N" if "i \<le> sp" for i
  proof -
    have "N * i \<le> N * (sp + 1)" using that by (intro mult_le_mono2) simp
    then have "N * i div (sp + 1) \<le> N * (sp + 1) div (sp + 1)" by (rule div_le_mono)
    moreover have "N * (sp + 1) div (sp + 1) = N"
      by (rule nonzero_mult_div_cancel_right) simp
    ultimately show ?thesis by (simp only:)
  qed
  with assms show ?thesis by (auto simp: spec_offsets_set)
qed

lemma keyPositions_spec:
  fixes samplePoints sampleSize fsize :: u64
  assumes pos: "0 < unat fsize"
    and fit: "unat fsize * (unat samplePoints + 1) < 2 ^ 64"
  shows "map unat (keyPositions samplePoints sampleSize fsize)
           = spec_offsets (unat samplePoints) (unat sampleSize) (unat fsize)"
proof -
  define N where "N = unat fsize"
  define sp where "sp = unat samplePoints"
  have "1 * (sp + 1) \<le> N * (sp + 1)" using pos by (intro mult_le_mono1) (simp add: N_def)
  then have sp_fit: "sp + 1 < 2 ^ 64" using fit by (simp add: N_def sp_def)
  have "unat samplePoints + unat (1 :: u64) < 2 ^ LENGTH(64)"
    using sp_fit by (simp add: sp_def)
  then have sp1: "unat (samplePoints + 1) = sp + 1"
    by (simp add: unat_add_lem[THEN iffD1] sp_def)
  have interior: "unat ((fsize * of_nat i) div (samplePoints + 1)) = N * i div (sp + 1)"
    if "i \<le> sp" for i
  proof -
    have i: "unat (of_nat i :: u64) = i"
      using that sp_fit by (intro u64_of_length) simp
    have "N * i \<le> N * (sp + 1)" using that by (intro mult_le_mono2) simp
    then have "unat fsize * unat (of_nat i :: u64) < 2 ^ LENGTH(64)"
      using fit i by (simp add: N_def sp_def)
    then have "unat (fsize * of_nat i) = N * i"
      using i by (simp add: unat_mult_lem[THEN iffD1] N_def)
    then show ?thesis by (simp add: unat_div sp1)
  qed
  have "min sampleSize fsize \<le> fsize" by simp
  then have last: "unat (fsize - min sampleSize fsize) = N - min (unat sampleSize) N"
    by (simp add: unat_sub unat_min N_def)
  have "map unat (map (\<lambda>i. (fsize * of_nat i) div (samplePoints + 1)) [1 ..< Suc sp])
          = map (\<lambda>i. N * i div (sp + 1)) [1 ..< Suc sp]"
  proof -
    have "(unat \<circ> (\<lambda>i. (fsize * of_nat i) div (samplePoints + 1))) i = N * i div (sp + 1)"
      if "i \<in> set [1 ..< Suc sp]" for i
    proof -
      from that have "i \<le> sp" by auto
      then show ?thesis by (simp add: interior)
    qed
    then show ?thesis unfolding map_map by (rule map_cong[OF refl])
  qed
  then have "map unat ([0] @ map (\<lambda>i. (fsize * of_nat i) div (samplePoints + 1)) [1 ..< Suc sp]
              @ [fsize - min sampleSize fsize])
        = [0] @ map (\<lambda>i. N * i div (sp + 1)) [1 ..< Suc sp] @ [N - min (unat sampleSize) N]"
    using last by simp
  moreover have "set ([0] @ map (\<lambda>i. N * i div (sp + 1)) [1 ..< Suc sp]
                        @ [N - min (unat sampleSize) N])
        = {0} \<union> (\<lambda>i. N * i div (sp + 1)) ` {1 .. sp} \<union> {N - min (unat sampleSize) N}"
    by (auto simp del: upt_Suc simp add: atLeastLessThanSuc_atLeastAtMost)
  ultimately have "set (map unat ([0] @ map (\<lambda>i. (fsize * of_nat i) div (samplePoints + 1)) [1 ..< Suc sp]
              @ [fsize - min sampleSize fsize]))
        = {0} \<union> (\<lambda>i. N * i div (sp + 1)) ` {1 .. sp} \<union> {N - min (unat sampleSize) N}"
    by (simp only:)
  then show ?thesis
    unfolding keyPositions_def sort_unique_unat spec_offsets_def
    by (simp only: sp_def[symmetric] N_def[symmetric])
qed

lemma sample_windows_spec:
  assumes len: "length bytes = unat fsize" and le: "\<forall>p\<in>set ps. p \<le> fsize"
  shows "sample_windows sampleSize fsize filepath bytes ps tr sig =
     (tr @ map (\<lambda>p. ReadBlock filepath p (min sampleSize (fsize - p))) ps,
      Inr (sig @ concat (map (\<lambda>p. to_string (spec_hash
                 (spec_window (unat sampleSize) bytes (unat p))) @ ''|'') ps)))"
  using le
proof (induction ps arbitrary: tr sig)
  case Nil
  show ?case by simp
next
  case (Cons p ps)
  then have p: "p \<le> fsize" by simp
  have rs: "unat (min sampleSize (fsize - p)) = min (unat sampleSize) (length bytes - unat p)"
    using p by (simp add: unat_min unat_sub len)
  have buf: "take (unat (min sampleSize (fsize - p))) (drop (unat p) bytes)
               = spec_window (unat sampleSize) bytes (unat p)"
    by (simp add: rs spec_window_def)
  have full: "length (spec_window (unat sampleSize) bytes (unat p))
               = unat (min sampleSize (fsize - p))"
    by (simp add: rs spec_window_def)
  have "sample_windows sampleSize fsize filepath bytes (p # ps) tr sig =
      sample_windows sampleSize fsize filepath bytes ps
        (tr @ [ReadBlock filepath p (min sampleSize (fsize - p))])
        (sig @ to_string (spec_hash (spec_window (unat sampleSize) bytes (unat p))) @ ''|'')"
    unfolding sample_windows.simps Let_def buf by (simp add: full simpleHash_spec)
  also have "\<dots> = (tr @ map (\<lambda>p. ReadBlock filepath p (min sampleSize (fsize - p))) (p # ps),
      Inr (sig @ concat (map (\<lambda>p. to_string (spec_hash
                 (spec_window (unat sampleSize) bytes (unat p))) @ ''|'') (p # ps))))"
    using Cons.prems by (subst Cons.IH) simp_all
  finally show ?case .
qed

lemma generateFileSignature_sampled:
  assumes f: "fs filepath = Some f" and op: "can_open f"
    and n: "length (content f) < 2 ^ 64"
    and big: "2 * unat sampleSize < length (content f)"
    and fit: "length (content f) * (unat samplePoints + 1) < 2 ^ 64"
  shows "generateFileSignature samplePoints sampleSize fs filepath =
     (OpenFile filepath #
        map (\<lambda>p. ReadBlock filepath p (min sampleSize (of_nat (length (content f)) - p)))
          (keyPositions samplePoints sampleSize (of_nat (length (content f)))),
      Inr (spec_fingerprint (unat samplePoints) (unat sampleSize) (content f)))"
proof -
  define fsize :: u64 where "fsize = of_nat (length (content f))"
  have N: "unat fsize = length (content f)"
    unfolding fsize_def by (rule u64_of_length[OF n])
  have sz: "getFileSize fs filepath = Inr fsize"
    using f by (simp add: getFileSize_def fsize_def)
  have "unat sampleSize * unat (2 :: u64) < 2 ^ LENGTH(64)"
    using big n by simp
  then have "unat (sampleSize * 2) = 2 * unat sampleSize"
    by (simp add: unat_mult_lem[THEN iffD1])
  then have notsmall: "\<not> fsize \<le> sampleSize * 2"
    using big by (simp add: word_le_nat_alt N)
  have pos: "0 < unat fsize" unfolding N using big by linarith
  have fit': "unat fsize * (unat samplePoints + 1) < 2 ^ 64" using fit N by simp
  have "1 * (unat samplePoints + 1) \<le> unat fsize * (unat samplePoints + 1)"
    using pos by (intro mult_le_mono1) simp
  then have "unat samplePoints + unat (1 :: u64) < 2 ^ LENGTH(64)" using fit' by simp
  then have "unat (samplePoints + 1) = unat samplePoints + 1"
    by (simp add: unat_add_lem[THEN iffD1])
  then have nz: "samplePoints + 1 \<noteq> 0" by (metis Suc_eq_plus1 nat.simps(3) unat_0)
  note kp = keyPositions_spec[OF pos fit']
  have le: "\<forall>p\<in>set (keyPositions samplePoints sampleSize fsize). p \<le> fsize"
  proof
    fix p assume "p \<in> set (keyPositions samplePoints sampleSize fsize)"
    then have "unat p \<in> set (map unat (keyPositions samplePoints sampleSize fsize))" by simp
    then have "unat p \<le> unat fsize" unfolding kp by (rule spec_offsets_le)
    then show "p \<le> fsize" by (simp add: word_le_nat_alt)
  qed
  have str: "concat (map (\<lambda>p. to_string (spec_hash
                 (spec_window (unat sampleSize) (content f) (unat p))) @ ''|'')
               (keyPositions samplePoints sampleSize fsize))
       = concat (map (\<lambda>p. to_string (spec_hash
                 (spec_window (unat sampleSize) (content f) p)) @ ''|'')
               (spec_offsets (unat samplePoints) (unat sampleSize) (length (content f))))"
    unfolding kp[symmetric, unfolded N] by (simp add: comp_def)
  show ?thesis
    unfolding fsize_def[symmetric]
    using sample_windows_spec[OF N[symmetric] le, of sampleSize filepath "[OpenFile filepath]"
        "to_string (unat fsize) @ ''|''"] notsmall nz f op
    by (simp add: generateFileSignature_def sz Let_def ifstream_def spec_fingerprint_def str N)
qed

lemma sample_windows_opened:
  "fst (sample_windows sampleSize fsize filepath bytes ps (e # tr) sig) \<noteq> []"
proof (induction ps arbitrary: tr sig)
  case Nil
  show ?case by simp
next
  case (Cons p ps)
  show ?case
    using Cons.IH[of "tr @ [ReadBlock filepath p (min sampleSize (fsize - p))]"]
    by (simp add: Let_def)
qed

lemma sample_windows_last:
  assumes "snd (sample_windows sampleSize fsize filepath bytes ps tr sig) = Inr r"
    and "sig \<noteq> []" and "last sig = CHR ''|''"
  shows "last r = CHR ''|''"
  using assms
proof (induction ps arbitrary: tr sig)
  case Nil
  then show ?case by simp
next
  case (Cons p ps)
  let ?buffer = "take (unat (min sampleSize (fsize - p))) (drop (unat p) bytes)"
  let ?sig = "sig @ to_string (unat (simpleHash ?buffer)) @ ''|''"
  from Cons.prems(1) have
    "snd (sample_windows sampleSize fsize filepath bytes ps
            (tr @ [ReadBlock filepath p (min sampleSize (fsize - p))]) ?sig) = Inr r"
    by (simp add: Let_def split: if_splits)
  then show ?case by (rule Cons.IH) simp_all
qed

lemma generateFileSignature_not_SMALL:
  assumes f: "fs filepath = Some f"
    and big: "\<not> (of_nat (length (content f)) :: u64) \<le> sampleSize * 2"
  shows "fst (generateFileSignature samplePoints sampleSize fs filepath) \<noteq> []"
    and "snd (generateFileSignature samplePoints sampleSize fs filepath) \<noteq> Inr (s @ ''|SMALL'')"
proof -
  have sz: "getFileSize fs filepath = Inr (of_nat (length (content f)))"
    using f by (simp add: getFileSize_def)
  show "fst (generateFileSignature samplePoints sampleSize fs filepath) \<noteq> []"
    using big sample_windows_opened
    by (simp add: generateFileSignature_def sz Let_def split: option.splits)
  show "snd (generateFileSignature samplePoints sampleSize fs filepath) \<noteq> Inr (s @ ''|SMALL'')"
  proof
    assume a: "snd (generateFileSignature samplePoints sampleSize fs filepath)
                 = Inr (s @ ''|SMALL'')"
    let ?fsize = "of_nat (length (content f)) :: u64"
    from a big have "snd (sample_windows sampleSize ?fsize filepath (content f)
                      (keyPositions samplePoints sampleSize ?fsize) [OpenFile filepath]
                      (to_string (unat ?fsize) @ ''|'')) = Inr (s @ ''|SMALL'')"
      using f by (auto simp: generateFileSignature_def sz Let_def ifstream_def
                       split: option.splits if_splits)
    then have "last (s @ ''|SMALL'') = CHR ''|''"
      by (rule sample_windows_last) simp_all
    then show False by simp
  qed
qed

text \<open>
  Claim C7. For a file of \<open>N\<close> bytes, \<^verbatim>\<open>generateFileSignature\<close> returns exactly
  the decimal digits of \<open>N\<close> followed by \<open>|SMALL\<close>, with no file opened and no
  byte read, whenever \<open>N \<le> 2 * sampleSize\<close>: this holds for the product as the
  program computes it in \<^verbatim>\<open>size_t\<close>, which is the mathematical product for
  every \<open>sampleSize < 2^63\<close>. At \<open>N = 2 * sampleSize + 1\<close> the SMALL path is not
  taken: the file is opened, the result is not the SMALL string, and for a
  readable file it is the fingerprint built from hashed sample windows.
\<close>

theorem generateFileSignature_SMALL_boundary:
  assumes f: "fs filepath = Some f" and n: "length (content f) < 2 ^ 64"
  shows "(length (content f) \<le> unat (sampleSize * 2) \<longrightarrow>
            generateFileSignature samplePoints sampleSize fs filepath
              = ([], Inr (to_string (length (content f)) @ ''|SMALL'')))
       \<and> (unat sampleSize < 2 ^ 63 \<longrightarrow> length (content f) \<le> 2 * unat sampleSize \<longrightarrow>
            generateFileSignature samplePoints sampleSize fs filepath
              = ([], Inr (to_string (length (content f)) @ ''|SMALL'')))
       \<and> (length (content f) = 2 * unat sampleSize + 1 \<longrightarrow>
            fst (generateFileSignature samplePoints sampleSize fs filepath) \<noteq> []
          \<and> snd (generateFileSignature samplePoints sampleSize fs filepath)
              \<noteq> Inr (to_string (length (content f)) @ ''|SMALL'')
          \<and> (can_open f \<and> length (content f) * (unat samplePoints + 1) < 2 ^ 64 \<longrightarrow>
              snd (generateFileSignature samplePoints sampleSize fs filepath)
                = Inr (spec_fingerprint (unat samplePoints) (unat sampleSize) (content f))))"
proof -
  let ?N = "length (content f)"
  let ?g = "generateFileSignature samplePoints sampleSize fs filepath"
  have N: "unat (of_nat ?N :: u64) = ?N" by (rule u64_of_length[OF n])
  have sz: "getFileSize fs filepath = Inr (of_nat ?N)"
    using f by (simp add: getFileSize_def)
  have A: "?N \<le> unat (sampleSize * 2) \<Longrightarrow> ?g = ([], Inr (to_string ?N @ ''|SMALL''))"
    by (simp add: generateFileSignature_def sz Let_def word_le_nat_alt N)
  have dbl: "unat (sampleSize * 2) = 2 * unat sampleSize" if "unat sampleSize < 2 ^ 63"
  proof -
    have "unat sampleSize * unat (2 :: u64) < 2 ^ LENGTH(64)" using that by simp
    then show ?thesis by (simp add: unat_mult_lem[THEN iffD1])
  qed
  have B: "unat sampleSize < 2 ^ 63 \<Longrightarrow> ?N \<le> 2 * unat sampleSize
             \<Longrightarrow> ?g = ([], Inr (to_string ?N @ ''|SMALL''))"
    using A dbl by simp
  have C: "fst ?g \<noteq> [] \<and> snd ?g \<noteq> Inr (to_string ?N @ ''|SMALL'')
         \<and> (can_open f \<and> ?N * (unat samplePoints + 1) < 2 ^ 64 \<longrightarrow>
              snd ?g = Inr (spec_fingerprint (unat samplePoints) (unat sampleSize) (content f)))"
    if eq: "?N = 2 * unat sampleSize + 1"
  proof -
    have "unat sampleSize < 2 ^ 63" using eq n by simp
    from dbl[OF this] have big: "\<not> (of_nat ?N :: u64) \<le> sampleSize * 2"
      unfolding word_le_nat_alt N using eq by simp
    have "2 * unat sampleSize < ?N" using eq by simp
    then have "can_open f \<Longrightarrow> ?N * (unat samplePoints + 1) < 2 ^ 64 \<Longrightarrow>
        snd ?g = Inr (spec_fingerprint (unat samplePoints) (unat sampleSize) (content f))"
      using generateFileSignature_sampled[of fs filepath f sampleSize samplePoints] f n by simp
    then show ?thesis
      using generateFileSignature_not_SMALL[of fs filepath f sampleSize samplePoints, OF f big]
      by blast
  qed
  show ?thesis using A B C by blast
qed





lemma example_offsets_boundary: "spec_offsets 2 3 7 = [0, 2, 4]"
  by code_simp

lemma example_fingerprint_boundary:
  "spec_fingerprint 2 3 [1, 2, 3, 4, 5, 6, 7] = ''7|1026|3012|4998|''"
proof -
  have len: "length [1, 2, 3, 4, 5, 6, 7 :: byte] = 7" by simp
  show ?thesis
    unfolding spec_fingerprint_def len example_offsets_boundary
    by (simp add: spec_hash_def spec_window_def to_string.simps digit_char_def)
qed

theorem generateFileSignature_SMALL_boundary_witness:
  "generateFileSignature 2 4 example_fs ''d'' = ([], Inr ''7|SMALL'')
   \<and> fst (generateFileSignature 2 3 example_fs ''d'') \<noteq> []
   \<and> snd (generateFileSignature 2 3 example_fs ''d'') = Inr ''7|1026|3012|4998|''"
  using generateFileSignature_SMALL_boundary[of example_fs "''d''" _ 4 2]
    generateFileSignature_SMALL_boundary[of example_fs "''d''" _ 3 2]
  by (simp add: example_fs_def to_string.simps digit_char_def example_fingerprint_boundary)

section \<open>Properties of the exact comparator\<close>

lemma inner_loop_char:
  assumes "length processed = length cg"
  shows "inner_loop fs cg i j processed grp =
     (map (\<lambda>k. processed ! k \<or> (j \<le> k \<and> identical fs (cg ! i) (cg ! k))) [0 ..< length cg],
      grp @ map (\<lambda>k. cg ! k)
              (filter (\<lambda>k. \<not> processed ! k \<and> identical fs (cg ! i) (cg ! k)) [j ..< length cg]))"
  using assms
proof (induction fs cg i j processed grp rule: inner_loop.induct)
  case (1 fs cg i j processed grp)
  show ?case
  proof (cases "j < length cg")
    case False
    have "map (\<lambda>k. processed ! k \<or> (j \<le> k \<and> identical fs (cg ! i) (cg ! k))) [0 ..< length cg]
            = map (\<lambda>k. processed ! k) [0 ..< length cg]"
      using False by simp
    also have "\<dots> = processed" using map_nth[of processed] "1.prems" by simp
    finally show ?thesis using False by (simp add: inner_loop.simps[of fs cg i j])
  next
    case True
    note lt = this
    have upt: "[j ..< length cg] = j # [j + 1 ..< length cg]"
      using lt by (simp add: upt_conv_Cons)
    show ?thesis
    proof (cases "processed ! j")
      case True
      have "map (\<lambda>k. processed ! k \<or> (j + 1 \<le> k \<and> identical fs (cg ! i) (cg ! k))) [0 ..< length cg]
          = map (\<lambda>k. processed ! k \<or> (j \<le> k \<and> identical fs (cg ! i) (cg ! k))) [0 ..< length cg]"
        using True by (auto simp: le_less Suc_le_eq)
      then show ?thesis
        using "1.IH"(1)[OF lt True "1.prems"] lt True
        by (simp add: inner_loop.simps[of fs cg i j] upt)
    next
      case False
      note np = this
      show ?thesis
      proof (cases "identical fs (cg ! i) (cg ! j)")
        case True
        have len: "length (processed[j := True]) = length cg" using "1.prems" by simp
        have upd: "processed[j := True] ! k = (k = j \<or> processed ! k)" for k
          using lt "1.prems" by (cases "k = j") simp_all
        have "map (\<lambda>k. processed[j := True] ! k \<or> (j + 1 \<le> k \<and> identical fs (cg ! i) (cg ! k)))
                [0 ..< length cg]
          = map (\<lambda>k. processed ! k \<or> (j \<le> k \<and> identical fs (cg ! i) (cg ! k))) [0 ..< length cg]"
          using True by (auto simp: upd le_less Suc_le_eq)
        moreover have "filter (\<lambda>k. \<not> processed[j := True] ! k \<and> identical fs (cg ! i) (cg ! k))
                 [j + 1 ..< length cg]
          = filter (\<lambda>k. \<not> processed ! k \<and> identical fs (cg ! i) (cg ! k)) [j + 1 ..< length cg]"
          by (rule filter_cong[OF refl]) (auto simp: upd)
        ultimately show ?thesis
          using "1.IH"(2)[OF lt np True len] lt np True
          by (simp add: inner_loop.simps[of fs cg i j] upt)
      next
        case False
        have "map (\<lambda>k. processed ! k \<or> (j + 1 \<le> k \<and> identical fs (cg ! i) (cg ! k))) [0 ..< length cg]
          = map (\<lambda>k. processed ! k \<or> (j \<le> k \<and> identical fs (cg ! i) (cg ! k))) [0 ..< length cg]"
          using False by (auto simp: le_less Suc_le_eq)
        then show ?thesis
          using "1.IH"(3)[OF lt np False "1.prems"] lt np False
          by (simp add: inner_loop.simps[of fs cg i j] upt)
      qed
    qed
  qed
qed

lemma pending_skip:
  assumes "i < length cg" "processed ! i"
  shows "pending cg processed i = pending cg processed (i + 1)"
  using assms by (simp add: pending_def upt_conv_Cons)

lemma pending_take:
  assumes "i < length cg" "\<not> processed ! i"
  shows "pending cg processed i = cg ! i # pending cg processed (i + 1)"
  using assms by (simp add: pending_def upt_conv_Cons)

lemma pending_all: "pending cg (replicate (length cg) False) 0 = cg"
proof -
  have "filter (\<lambda>k. \<not> replicate (length cg) False ! k) [0 ..< length cg] = [0 ..< length cg]"
    by (rule filter_True) simp
  then show ?thesis by (simp add: pending_def map_nth)
qed

lemma outer_loop_char:
  assumes "length processed = length cg"
  shows "outer_loop fs cg i processed acc
           = acc @ spec_groups (identical fs) (pending cg processed i)"
  using assms
proof (induction "length cg - i" arbitrary: i processed acc)
  case 0
  then have "\<not> i < length cg" by simp
  then show ?case by (simp add: outer_loop.simps[of fs cg i] pending_def)
next
  case (Suc d)
  then have lt: "i < length cg" by simp
  have d: "d = length cg - (i + 1)" using Suc.hyps(2) by simp
  show ?case
  proof (cases "processed ! i")
    case True
    show ?thesis
      using Suc.hyps(1)[OF d Suc.prems, of acc] lt True
      by (simp add: outer_loop.simps[of fs cg i] pending_skip)
  next
    case False
    let ?same = "identical fs (cg ! i)"
    let ?pr = "processed[i := True]"
    let ?pr' = "map (\<lambda>k. ?pr ! k \<or> (i + 1 \<le> k \<and> ?same (cg ! k))) [0 ..< length cg]"
    let ?grp = "[cg ! i] @ map (\<lambda>k. cg ! k)
                  (filter (\<lambda>k. \<not> ?pr ! k \<and> ?same (cg ! k)) [i + 1 ..< length cg])"
    have inner: "inner_loop fs cg i (i + 1) ?pr [cg ! i] = (?pr', ?grp)"
      by (rule inner_loop_char) (simp add: Suc.prems)
    have len': "length ?pr' = length cg" by simp
    have upd: "?pr ! k = processed ! k" if "i + 1 \<le> k" for k
      using that by simp
    have members: "map (\<lambda>k. cg ! k)
                  (filter (\<lambda>k. \<not> ?pr ! k \<and> ?same (cg ! k)) [i + 1 ..< length cg])
          = filter ?same (pending cg processed (i + 1))"
    proof -
      have "filter (\<lambda>k. \<not> ?pr ! k \<and> ?same (cg ! k)) [i + 1 ..< length cg]
          = filter (\<lambda>k. ?same (cg ! k)) (filter (\<lambda>k. \<not> processed ! k) [i + 1 ..< length cg])"
        unfolding filter_filter by (rule filter_cong[OF refl]) (auto simp: upd)
      then show ?thesis by (simp add: pending_def filter_map comp_def)
    qed
    have rest: "pending cg ?pr' (i + 1) = filter (\<lambda>y. \<not> ?same y) (pending cg processed (i + 1))"
    proof -
      have "filter (\<lambda>k. \<not> ?pr' ! k) [i + 1 ..< length cg]
          = filter (\<lambda>k. \<not> ?same (cg ! k)) (filter (\<lambda>k. \<not> processed ! k) [i + 1 ..< length cg])"
        unfolding filter_filter by (rule filter_cong[OF refl]) (auto simp: upd)
      then show ?thesis by (simp add: pending_def filter_map comp_def)
    qed
    have "outer_loop fs cg i processed acc
        = outer_loop fs cg (i + 1) ?pr' (if length ?grp > 1 then acc @ [?grp] else acc)"
      unfolding outer_loop.simps[of fs cg i processed acc] inner using lt False by simp
    also have "\<dots> = (if length ?grp > 1 then acc @ [?grp] else acc)
                     @ spec_groups (identical fs) (pending cg ?pr' (i + 1))"
      by (rule Suc.hyps(1)[OF d len'])
    also have "\<dots> = acc @ spec_groups (identical fs) (cg ! i # pending cg processed (i + 1))"
      unfolding rest members by simp
    finally show ?thesis using pending_take[OF lt False] by simp
  qed
qed

lemma findExactDuplicates_spec:
  "findExactDuplicates fs cg = spec_groups (identical fs) cg"
  using outer_loop_char[of "replicate (length cg) False" cg fs 0 "[]"]
  by (simp add: findExactDuplicates_def pending_all)

lemma identical_iff:
  assumes "fs a = Some fa" "fs b = Some fb"
    "length (content fa) < 2 ^ 64" "length (content fb) < 2 ^ 64"
  shows "identical fs a b
           = (content fa = content fb \<and> (content fa = [] \<or> can_open fa \<and> can_open fb))"
  using areFilesIdentical_exact[OF assms] by (simp add: identical_def)

lemma identical_byte_identical:
  assumes id: "identical fs a b" and fit: "sizes_fit fs cg" and a: "a \<in> set cg" and b: "b \<in> set cg"
  shows "byte_identical fs a b"
proof -
  have ex: "\<exists>f. fs p = Some f" if "getFileSize fs p \<noteq> Inl (filesystem_error p)" for p
    using that by (cases "fs p") (simp_all add: getFileSize_def)
  from id have "\<exists>fa. fs a = Some fa" and "\<exists>fb. fs b = Some fb"
    by (auto simp: identical_def areFilesIdentical_def getFileSize_def
             split: option.splits sum.splits)
  then obtain fa fb where fa: "fs a = Some fa" and fb: "fs b = Some fb" by blast
  have na: "length (content fa) < 2 ^ 64" and nb: "length (content fb) < 2 ^ 64"
    using fit a b fa fb by (auto simp: sizes_fit_def list_all_iff split: option.splits)
  from id identical_iff[OF fa fb na nb] show ?thesis
    by (simp add: byte_identical_def fa fb)
qed

lemma spec_groups_member:
  assumes "g \<in> set (spec_groups same xs)"
  shows "2 \<le> length g \<and> subseq g xs \<and> (\<forall>y\<in>set (tl g). same (hd g) y)"
  using assms
proof (induction same xs rule: spec_groups.induct)
  case (1 same)
  then show ?case by simp
next
  case (2 same x xs)
  let ?grp = "x # filter (same x) xs"
  let ?rest = "filter (\<lambda>y. \<not> same x y) xs"
  from "2.prems" consider "g = ?grp" "filter (same x) xs \<noteq> []"
    | "g \<in> set (spec_groups same ?rest)"
    by (auto split: if_splits)
  then show ?case
  proof cases
    case 1
    then have "Suc 0 \<le> length (filter (same x) xs)"
      by (cases "filter (same x) xs") simp_all
    then show ?thesis using 1 by simp
  next
    case 2
    from "2.IH"[OF 2] have "subseq g ?rest" by simp
    then have "subseq g (x # xs)"
      by (meson subseq_Cons' subseq_filter_left subseq_order.trans list_emb_Cons)
    with "2.IH"[OF 2] show ?thesis by simp
  qed
qed

lemma spec_groups_anchors: "subseq (map hd (spec_groups same xs)) xs"
proof (induction same xs rule: spec_groups.induct)
  case (1 same)
  show ?case by simp
next
  case (2 same x xs)
  let ?rest = "filter (\<lambda>y. \<not> same x y) xs"
  have "subseq (map hd (spec_groups same ?rest)) xs"
    using "2.IH" subseq_filter_left subseq_order.trans by blast
  then show ?case by auto
qed

lemma spec_groups_cong:
  assumes "\<And>x y. x \<in> set xs \<Longrightarrow> y \<in> set xs \<Longrightarrow> same x y = same' x y"
  shows "spec_groups same xs = spec_groups same' xs"
  using assms
proof (induction same xs rule: spec_groups.induct)
  case (1 same)
  show ?case by simp
next
  case (2 same x xs)
  have f: "filter (same x) xs = filter (same' x) xs"
    by (rule filter_cong[OF refl]) (simp add: "2.prems")
  have r: "filter (\<lambda>y. \<not> same x y) xs = filter (\<lambda>y. \<not> same' x y) xs"
    by (rule filter_cong[OF refl]) (simp add: "2.prems")
  have "spec_groups same (filter (\<lambda>y. \<not> same x y) xs)
      = spec_groups same' (filter (\<lambda>y. \<not> same x y) xs)"
    by (rule "2.IH") (simp_all add: "2.prems")
  then show ?case by (simp add: f r)
qed

lemma identical_readable:
  assumes rd: "readable fs cg" and fit: "sizes_fit fs cg" and a: "a \<in> set cg" and b: "b \<in> set cg"
  shows "identical fs a b = byte_identical fs a b"
proof -
  from rd a have "case fs a of None \<Rightarrow> False | Some f \<Rightarrow> can_open f"
    by (simp add: readable_def list_all_iff)
  then obtain fa where fa: "fs a = Some fa" "can_open fa" by (cases "fs a") auto
  from rd b have "case fs b of None \<Rightarrow> False | Some f \<Rightarrow> can_open f"
    by (simp add: readable_def list_all_iff)
  then obtain fb where fb: "fs b = Some fb" "can_open fb" by (cases "fs b") auto
  have na: "length (content fa) < 2 ^ 64" and nb: "length (content fb) < 2 ^ 64"
    using fit a b fa fb by (auto simp: sizes_fit_def list_all_iff split: option.splits)
  show ?thesis
    using identical_iff[OF fa(1) fb(1) na nb] fa fb by (simp add: byte_identical_def)
qed

lemma byte_identical_sym: "byte_identical fs p q \<Longrightarrow> byte_identical fs q p"
  by (auto simp: byte_identical_def split: option.splits)

lemma byte_identical_trans:
  "byte_identical fs p q \<Longrightarrow> byte_identical fs q r \<Longrightarrow> byte_identical fs p r"
  by (auto simp: byte_identical_def split: option.splits)

lemma spec_groups_complete:
  assumes "p \<in> set xs" "q \<in> set xs" "p \<noteq> q" "byte_identical fs p q"
  shows "\<exists>g \<in> set (spec_groups (byte_identical fs) xs). p \<in> set g \<and> q \<in> set g"
  using assms
proof (induction "byte_identical fs" xs rule: spec_groups.induct)
  case 1
  then show ?case by simp
next
  case (2 x xs)
  let ?grp = "x # filter (byte_identical fs x) xs"
  let ?rest = "filter (\<lambda>y. \<not> byte_identical fs x y) xs"
  show ?case
  proof (cases "byte_identical fs x p")
    case True
    then have xq: "byte_identical fs x q" using "2.prems"(4) by (rule byte_identical_trans)
    have "p \<in> set ?grp" "q \<in> set ?grp" using "2.prems"(1,2) True xq by auto
    moreover have "filter (byte_identical fs x) xs \<noteq> []"
    proof -
      from "2.prems"(1,2,3) have "p \<in> set xs \<or> q \<in> set xs" by auto
      then have "\<exists>y \<in> set xs. byte_identical fs x y" using True xq by auto
      then show ?thesis by (simp add: filter_empty_conv)
    qed
    ultimately show ?thesis unfolding spec_groups.simps by (intro bexI[of _ ?grp]) simp_all
  next
    case False
    have px: "p \<noteq> x"
    proof
      assume "p = x"
      with "2.prems"(4) have "byte_identical fs x x"
        by (auto simp: byte_identical_def split: option.splits)
      with False \<open>p = x\<close> show False by simp
    qed
    have nq: "\<not> byte_identical fs x q"
      using False "2.prems"(4) byte_identical_sym byte_identical_trans by blast
    have qx: "q \<noteq> x"
    proof
      assume "q = x"
      with "2.prems"(4) have "byte_identical fs x x"
        by (auto simp: byte_identical_def split: option.splits)
      with nq \<open>q = x\<close> show False by simp
    qed
    have "p \<in> set ?rest" "q \<in> set ?rest" using "2.prems"(1,2) px qx False nq by auto
    from "2.hyps"[OF this "2.prems"(3,4)] show ?thesis by auto
  qed
qed

text \<open>
  Claim C1. \<^verbatim>\<open>findExactDuplicates\<close>, the two nested index loops over the
  \<open>processed\<close> vector, computes exactly the grouping procedure of the
  specification (\<open>spec_groups\<close>): each record not yet processed anchors a group,
  every later unprocessed record that compares identical to the anchor joins
  it, and the group is emitted exactly when it has at least two members. When
  every candidate can be read, comparing identical is having the same bytes: the
  result is the grouping procedure run with the byte-level comparison, so a later
  unprocessed record with the bytes of the anchor is appended, and any two
  different candidates with the same bytes are members of one emitted group.
  Consequently every emitted group has at least two members, keeps the
  candidates' order, and any two of its members are byte-identical; and the
  anchors of the emitted groups appear in the order of the candidates.
\<close>

theorem findExactDuplicates_groups:
  assumes fit: "sizes_fit fs candidateGroup"
  shows "findExactDuplicates fs candidateGroup = spec_groups (identical fs) candidateGroup
       \<and> (readable fs candidateGroup \<longrightarrow>
            findExactDuplicates fs candidateGroup
              = spec_groups (byte_identical fs) candidateGroup)
       \<and> (readable fs candidateGroup \<longrightarrow>
            (\<forall>p \<in> set candidateGroup. \<forall>q \<in> set candidateGroup.
               p \<noteq> q \<and> byte_identical fs p q \<longrightarrow>
               (\<exists>g \<in> set (findExactDuplicates fs candidateGroup). p \<in> set g \<and> q \<in> set g)))
       \<and> (\<forall>g \<in> set (findExactDuplicates fs candidateGroup).
             2 \<le> length g \<and> subseq g candidateGroup
             \<and> (\<forall>p \<in> set g. \<forall>q \<in> set g. byte_identical fs p q))
       \<and> subseq (map hd (findExactDuplicates fs candidateGroup)) candidateGroup"
proof -
  have pair: "byte_identical fs p q"
    if g: "g \<in> set (spec_groups (identical fs) candidateGroup)" and p: "p \<in> set g" and q: "q \<in> set g"
    for g p q
  proof -
    from spec_groups_member[OF g] have len: "2 \<le> length g" and sub: "subseq g candidateGroup"
      and same: "\<forall>y\<in>set (tl g). identical fs (hd g) y" by simp_all
    from len obtain x y ys where gs: "g = x # y # ys" by (cases g; cases "tl g") auto
    have incg: "set g \<subseteq> set candidateGroup"
      using sub by (auto elim: list_emb_set)
    have anchor: "byte_identical fs x z" if "z \<in> set g" for z
    proof (cases "z = x")
      case True
      have "byte_identical fs x y"
        using same gs incg by (intro identical_byte_identical[OF _ fit]) auto
      then show ?thesis using True by (auto simp: byte_identical_def split: option.splits)
    next
      case False
      with that gs have "z \<in> set (tl g)" by auto
      with same gs have "identical fs x z" by auto
      then show ?thesis using incg that gs by (intro identical_byte_identical[OF _ fit]) auto
    qed
    from anchor[OF p] anchor[OF q] show ?thesis
      by (auto simp: byte_identical_def split: option.splits)
  qed
  have bytes: "spec_groups (identical fs) candidateGroup
                 = spec_groups (byte_identical fs) candidateGroup"
    if rd: "readable fs candidateGroup"
    by (rule spec_groups_cong) (rule identical_readable[OF rd fit])
  have complete: "\<exists>g \<in> set (spec_groups (identical fs) candidateGroup). p \<in> set g \<and> q \<in> set g"
    if rd: "readable fs candidateGroup" and "p \<in> set candidateGroup" "q \<in> set candidateGroup"
      "p \<noteq> q" "byte_identical fs p q" for p q
    unfolding bytes[OF rd] using that(2-5) by (rule spec_groups_complete)
  have sound: "\<forall>g \<in> set (spec_groups (identical fs) candidateGroup).
             2 \<le> length g \<and> subseq g candidateGroup
             \<and> (\<forall>p \<in> set g. \<forall>q \<in> set g. byte_identical fs p q)"
    using spec_groups_member[of _ "identical fs" candidateGroup] pair by blast
  show ?thesis
    unfolding findExactDuplicates_spec
  proof (intro conjI impI ballI)
    show "spec_groups (identical fs) candidateGroup = spec_groups (identical fs) candidateGroup"
      by (rule refl)
  next
    assume "readable fs candidateGroup"
    then show "spec_groups (identical fs) candidateGroup
                 = spec_groups (byte_identical fs) candidateGroup"
      by (rule bytes)
  next
    fix p q
    assume "readable fs candidateGroup" "p \<in> set candidateGroup" "q \<in> set candidateGroup"
      "p \<noteq> q \<and> byte_identical fs p q"
    then show "\<exists>g \<in> set (spec_groups (identical fs) candidateGroup). p \<in> set g \<and> q \<in> set g"
      using complete[of p q] by simp
  next
    fix g
    assume "g \<in> set (spec_groups (identical fs) candidateGroup)"
    with sound show "2 \<le> length g" by simp
  next
    fix g
    assume "g \<in> set (spec_groups (identical fs) candidateGroup)"
    with sound show "subseq g candidateGroup" by simp
  next
    fix g p q
    assume "g \<in> set (spec_groups (identical fs) candidateGroup)" "p \<in> set g" "q \<in> set g"
    then show "byte_identical fs p q" by (rule pair)
  next
    show "subseq (map hd (spec_groups (identical fs) candidateGroup)) candidateGroup"
      by (rule spec_groups_anchors)
  qed
qed

theorem findExactDuplicates_groups_witness:
  "findExactDuplicates example_fs [''a'', ''c'', ''b'', ''d''] = [[''a'', ''b'']]
   \<and> spec_groups (byte_identical example_fs) [''a'', ''c'', ''b'', ''d''] = [[''a'', ''b'']]
   \<and> byte_identical example_fs ''a'' ''b''"
proof -
  have fit: "sizes_fit example_fs [''a'', ''c'', ''b'', ''d'']"
    by (simp add: sizes_fit_def example_fs_def)
  have rd: "readable example_fs [''a'', ''c'', ''b'', ''d'']"
    by (simp add: readable_def example_fs_def)
  have ab: "byte_identical example_fs ''a'' ''b''"
    and ac: "\<not> byte_identical example_fs ''a'' ''c''"
    and ad: "\<not> byte_identical example_fs ''a'' ''d''"
    and cd: "\<not> byte_identical example_fs ''c'' ''d''"
    by (simp_all add: byte_identical_def example_fs_def)
  have groups: "spec_groups (byte_identical example_fs) [''a'', ''c'', ''b'', ''d'']
      = [[''a'', ''b'']]"
    by (simp add: ab ac ad cd)
  have "findExactDuplicates example_fs [''a'', ''c'', ''b'', ''d'']
      = spec_groups (byte_identical example_fs) [''a'', ''c'', ''b'', ''d'']"
    by (rule findExactDuplicates_groups[OF fit, THEN conjunct2, THEN conjunct1, rule_format,
          OF rd])
  with groups ab show ?thesis by simp
qed

section \<open>Properties of the deleters in a dry run\<close>

lemma delete_members_dry:
  assumes "untouched fs st"
  shows "untouched fs (snd (delete_members True ps i keepSet st))"
  using assms
proof (induction ps arbitrary: i st)
  case Nil
  then show ?case by simp
next
  case (Cons p ps)
  show ?case
  proof (cases "i + 1 \<in> keepSet")
    case True
    with Cons show ?thesis by simp
  next
    case False
    show ?thesis
    proof (cases "getFileSize (fsys st) p")
      case (Inl e)
      with False Cons.prems show ?thesis by simp
    next
      case (Inr fileSize)
      let ?st = "st\<lparr>successfullyDeleted := successfullyDeleted st + 1,
                     actualSpaceSaved := actualSpaceSaved st + fileSize,
                     printed := printed st @ [WouldDelete (i + 1) p]\<rparr>"
      have "untouched fs ?st" using Cons.prems by (simp add: untouched_def)
      from Cons.IH[OF this] False Inr show ?thesis by simp
    qed
  qed
qed

lemma delete_groups_dry:
  assumes "untouched fs st"
  shows "untouched fs (snd (delete_groups True gs groupIndex keepFiles st))"
  using assms
proof (induction gs arbitrary: groupIndex st)
  case Nil
  then show ?case by simp
next
  case (Cons g gs)
  show ?case
  proof (cases "groupIndex < length keepFiles")
    case False
    with Cons.prems show ?thesis by simp
  next
    case True
    obtain e st' where dm: "delete_members True g 0 (keepFiles ! groupIndex) st = (e, st')"
      by (cases "delete_members True g 0 (keepFiles ! groupIndex) st")
    have st': "untouched fs st'"
      using delete_members_dry[OF Cons.prems, of g 0 "keepFiles ! groupIndex"] dm by simp
    show ?thesis
    proof (cases e)
      case None
      with True dm Cons.IH[OF st'] show ?thesis by simp
    next
      case (Some err)
      with True dm st' show ?thesis by simp
    qed
  qed
qed

lemma deletion_dry_run:
  "untouched fs (snd (case delete_groups True duplicateGroups 0 keepFiles
             \<lparr>fsys = fs, removeCalls = [], successfullyDeleted = 0, failedToDelete = 0,
              actualSpaceSaved = 0, printed = [StartDeleting]\<rparr> of
        (Some e, st) \<Rightarrow> (Some e, st)
      | (None, st) \<Rightarrow> (None, st\<lparr>printed := printed st @ deletion_report True st\<rparr>)))"
proof -
  let ?init = "\<lparr>fsys = fs, removeCalls = [], successfullyDeleted = 0, failedToDelete = 0,
              actualSpaceSaved = 0, printed = [StartDeleting]\<rparr>"
  have "untouched fs ?init" by (simp add: untouched_def)
  from delete_groups_dry[OF this, of duplicateGroups 0 keepFiles] show ?thesis
    by (auto simp: untouched_def deletion_report_def split: prod.splits option.splits)
qed

text \<open>
  Claim C4. With \<open>dryRun\<close> set, for every file system, every list of groups and
  every retention plan, both deleters hand no path to \<^verbatim>\<open>fs::remove\<close> and
  leave the file system as it was (the same paths, bytes and modification
  times), whether the run completes or an exception ends it; what they print
  is the simulated-deletion report only.
\<close>

theorem dry_run_leaves_filesystem:
  "untouched fs (snd (performDeletionWithCustomRetention True fs duplicateGroups keepFiles))
   \<and> untouched fs (snd (performGlobalDeletionWithCustomRetention True fs duplicateGroups
                          keepFiles totalSpaceSaved))"
  unfolding performDeletionWithCustomRetention_def performGlobalDeletionWithCustomRetention_def
  using deletion_dry_run by simp

theorem dry_run_leaves_filesystem_witness:
  "fsys (snd (performDeletionWithCustomRetention True example_fs [[''a'', ''b'']] [{1}]))
     = example_fs
   \<and> printed (snd (performDeletionWithCustomRetention True example_fs [[''a'', ''b'']] [{1}]))
     = [StartDeleting, WouldDelete 2 ''b'', DeletionSummary 1 0 3, DryRunNotice]"
proof -
  have "printed (snd (performDeletionWithCustomRetention True example_fs [[''a'', ''b'']] [{1}]))
     = [StartDeleting, WouldDelete 2 ''b'', DeletionSummary 1 0 3, DryRunNotice]"
    by (simp add: performDeletionWithCustomRetention_def getFileSize_def example_fs_def
        deletion_report_def)
  then show ?thesis
    using dry_run_leaves_filesystem[of example_fs "[[''a'', ''b'']]" "[{1}]" 0]
    by (simp add: untouched_def)
qed

section \<open>Properties of the automatic strategies\<close>

lemma last_write_times_all:
  assumes "set ps \<subseteq> dom fs"
  shows "last_write_times fs ps i
           = Inr (map (\<lambda>j. (mtime_of fs (ps ! j), i + j + 1)) [0 ..< length ps])"
  using assms
proof (induction ps arbitrary: i)
  case Nil
  show ?case by simp
next
  case (Cons p ps)
  then obtain f where f: "fs p = Some f" by auto
  have "map (\<lambda>j. (mtime_of fs ((p # ps) ! j), i + j + 1)) [0 ..< length (p # ps)]
      = (mtime f, i + 1) # map (\<lambda>j. (mtime_of fs (ps ! j), (i + 1) + j + 1)) [0 ..< length ps]"
    using f by (simp add: map_upt_Suc mtime_of_def del: upt_Suc)
  with Cons f show ?case by simp
qed

lemma sort_head_least:
  fixes xs :: "'a::linorder list"
  assumes "sort xs = y # ys"
  shows "y \<in> set xs \<and> (\<forall>x\<in>set xs. y \<le> x)"
proof -
  have "sorted (sort xs)" and "set (sort xs) = set xs" by simp_all
  then have "sorted (y # ys)" and "set (y # ys) = set xs" unfolding assms by simp_all
  then show ?thesis by auto
qed

lemma rev_sort_head_greatest:
  fixes xs :: "'a::linorder list"
  assumes "rev (sort xs) = y # ys"
  shows "y \<in> set xs \<and> (\<forall>x\<in>set xs. x \<le> y)"
proof -
  from assms have s: "sort xs = rev ys @ [y]" by (simp add: rev_eq_Cons_iff)
  have "sorted (sort xs)" and "set (sort xs) = set xs" by simp_all
  then have "sorted (rev ys @ [y])" and "set (rev ys @ [y]) = set xs" unfolding s by simp_all
  then show ?thesis by (auto simp: sorted_append)
qed

lemma oldest_first_min:
  assumes ne: "g \<noteq> []" and ex: "set g \<subseteq> dom fs"
  shows "\<exists>k. autoSelectKeepFiles len fs g ''oldest'' = Inr {k}
             \<and> first_min (map (mtime_of fs) g) k"
proof -
  let ?ts = "map (\<lambda>j. (mtime_of fs (g ! j), Suc j)) [0 ..< length g]"
  have lw: "last_write_times fs g 0 = Inr ?ts"
    using last_write_times_all[OF ex, of 0] by simp
  have "sort ?ts \<noteq> []"
  proof
    assume "sort ?ts = []"
    then have "length (sort ?ts) = 0" by (simp only: list.size)
    then show False using ne by simp
  qed
  then obtain y ys where s: "sort ?ts = y # ys" by (cases "sort ?ts") auto
  from sort_head_least[OF s] have mem: "y \<in> set ?ts" and least: "\<forall>x\<in>set ?ts. y \<le> x"
    by simp_all
  from mem obtain j where j: "j < length g" and y: "y = (mtime_of fs (g ! j), Suc j)"
    by auto
  have res: "autoSelectKeepFiles len fs g ''oldest'' = Inr {Suc j}"
    by (simp add: autoSelectKeepFiles_def lw s y)
  have cmp: "(mtime_of fs (g ! j), Suc j) \<le> (mtime_of fs (g ! i), Suc i)" if "i < length g" for i
    using least that y by auto
  have all: "mtime_of fs (g ! j) \<le> mtime_of fs (g ! i)" if "i < length g" for i
    using cmp[OF that] by (auto simp: less_eq_prod_def)
  have before: "mtime_of fs (g ! i) \<noteq> mtime_of fs (g ! j)" if "i < j" for i
    using cmp[of i] that j by (auto simp: less_eq_prod_def)
  have "first_min (map (mtime_of fs) g) (Suc j)"
    using j all before
    by (auto simp: first_min_def list_all_length)
  with res show ?thesis by blast
qed

lemma newest_last_max:
  assumes ne: "g \<noteq> []" and ex: "set g \<subseteq> dom fs"
  shows "\<exists>k. autoSelectKeepFiles len fs g ''newest'' = Inr {k}
             \<and> last_max (map (mtime_of fs) g) k"
proof -
  let ?ts = "map (\<lambda>j. (mtime_of fs (g ! j), Suc j)) [0 ..< length g]"
  have lw: "last_write_times fs g 0 = Inr ?ts"
    using last_write_times_all[OF ex, of 0] by simp
  have "rev (sort ?ts) \<noteq> []"
  proof
    assume "rev (sort ?ts) = []"
    then have "length (rev (sort ?ts)) = 0" by (simp only: list.size)
    then show False using ne by simp
  qed
  then obtain y ys where s: "rev (sort ?ts) = y # ys" by (cases "rev (sort ?ts)") auto
  from rev_sort_head_greatest[OF s] have mem: "y \<in> set ?ts"
    and greatest: "\<forall>x\<in>set ?ts. x \<le> y" by simp_all
  from mem obtain j where j: "j < length g" and y: "y = (mtime_of fs (g ! j), Suc j)"
    by auto
  have res: "autoSelectKeepFiles len fs g ''newest'' = Inr {Suc j}"
    by (simp add: autoSelectKeepFiles_def lw s y)
  have cmp: "(mtime_of fs (g ! i), Suc i) \<le> (mtime_of fs (g ! j), Suc j)" if "i < length g" for i
    using greatest that y by auto
  have all: "mtime_of fs (g ! i) \<le> mtime_of fs (g ! j)" if "i < length g" for i
    using cmp[OF that] by (auto simp: less_eq_prod_def)
  have after: "mtime_of fs (g ! i) \<noteq> mtime_of fs (g ! j)" if "j < i" "i < length g" for i
    using cmp[of i] that by (auto simp: less_eq_prod_def)
  have "last_max (map (mtime_of fs) g) (Suc j)"
    using j all after
    by (auto simp: last_max_def list_all_length)
  with res show ?thesis by blast
qed

lemma longest_name_loop_char:
  "(longest_name_loop len ps i mx k = k \<and> (\<forall>p\<in>set ps. len p \<le> mx))
   \<or> (\<exists>j<length ps. longest_name_loop len ps i mx k = i + j + 1 \<and> mx < len (ps ! j)
          \<and> (\<forall>p\<in>set ps. len p \<le> len (ps ! j)) \<and> (\<forall>j'<j. len (ps ! j') < len (ps ! j)))"
proof (induction ps arbitrary: i mx k)
  case Nil
  show ?case by simp
next
  case (Cons p ps)
  show ?case
  proof (cases "mx < len p")
    case True
    from Cons.IH[of "i + 1" "len p" "i + 1"] show ?thesis
    proof (elim disjE conjE exE)
      assume "longest_name_loop len ps (i + 1) (len p) (i + 1) = i + 1"
        and "\<forall>q\<in>set ps. len q \<le> len p"
      then have "0 < length (p # ps) \<and> longest_name_loop len (p # ps) i mx k = i + 0 + 1
          \<and> mx < len ((p # ps) ! 0) \<and> (\<forall>q\<in>set (p # ps). len q \<le> len ((p # ps) ! 0))
          \<and> (\<forall>j'<0. len ((p # ps) ! j') < len ((p # ps) ! 0))"
        using True by simp
      then show ?thesis by blast
    next
      fix j
      assume j: "j < length ps"
        and r: "longest_name_loop len ps (i + 1) (len p) (i + 1) = i + 1 + j + 1"
        and gt: "len p < len (ps ! j)"
        and all: "\<forall>q\<in>set ps. len q \<le> len (ps ! j)"
        and before: "\<forall>j'<j. len (ps ! j') < len (ps ! j)"
      have "\<forall>j'<Suc j. len ((p # ps) ! j') < len (ps ! j)"
        using gt before by (auto simp: less_Suc_eq_0_disj)
      then have "Suc j < length (p # ps) \<and> longest_name_loop len (p # ps) i mx k = i + Suc j + 1
          \<and> mx < len ((p # ps) ! Suc j) \<and> (\<forall>q\<in>set (p # ps). len q \<le> len ((p # ps) ! Suc j))
          \<and> (\<forall>j'<Suc j. len ((p # ps) ! j') < len ((p # ps) ! Suc j))"
        using True j r gt all by auto
      then show ?thesis by blast
    qed
  next
    case False
    from Cons.IH[of "i + 1" mx k] show ?thesis
    proof (elim disjE conjE exE)
      assume "longest_name_loop len ps (i + 1) mx k = k" and "\<forall>q\<in>set ps. len q \<le> mx"
      then show ?thesis using False by auto
    next
      fix j
      assume j: "j < length ps"
        and r: "longest_name_loop len ps (i + 1) mx k = i + 1 + j + 1"
        and gt: "mx < len (ps ! j)"
        and all: "\<forall>q\<in>set ps. len q \<le> len (ps ! j)"
        and before: "\<forall>j'<j. len (ps ! j') < len (ps ! j)"
      have pl: "len p < len (ps ! j)" using False gt by auto
      have "\<forall>j'<Suc j. len ((p # ps) ! j') < len (ps ! j)"
        using pl before by (auto simp: less_Suc_eq_0_disj)
      then have "Suc j < length (p # ps) \<and> longest_name_loop len (p # ps) i mx k = i + Suc j + 1
          \<and> mx < len ((p # ps) ! Suc j) \<and> (\<forall>q\<in>set (p # ps). len q \<le> len ((p # ps) ! Suc j))
          \<and> (\<forall>j'<Suc j. len ((p # ps) ! j') < len ((p # ps) ! Suc j))"
        using False j r gt all pl by auto
      then show ?thesis by blast
    qed
  qed
qed

lemma shortest_name_loop_char:
  "(shortest_name_loop len ps i mn k = k \<and> (\<forall>p\<in>set ps. mn \<le> len p))
   \<or> (\<exists>j<length ps. shortest_name_loop len ps i mn k = i + j + 1 \<and> len (ps ! j) < mn
          \<and> (\<forall>p\<in>set ps. len (ps ! j) \<le> len p) \<and> (\<forall>j'<j. len (ps ! j) < len (ps ! j')))"
proof (induction ps arbitrary: i mn k)
  case Nil
  show ?case by simp
next
  case (Cons p ps)
  show ?case
  proof (cases "len p < mn")
    case True
    from Cons.IH[of "i + 1" "len p" "i + 1"] show ?thesis
    proof (elim disjE conjE exE)
      assume "shortest_name_loop len ps (i + 1) (len p) (i + 1) = i + 1"
        and "\<forall>q\<in>set ps. len p \<le> len q"
      then have "0 < length (p # ps) \<and> shortest_name_loop len (p # ps) i mn k = i + 0 + 1
          \<and> len ((p # ps) ! 0) < mn \<and> (\<forall>q\<in>set (p # ps). len ((p # ps) ! 0) \<le> len q)
          \<and> (\<forall>j'<0. len ((p # ps) ! 0) < len ((p # ps) ! j'))"
        using True by simp
      then show ?thesis by blast
    next
      fix j
      assume j: "j < length ps"
        and r: "shortest_name_loop len ps (i + 1) (len p) (i + 1) = i + 1 + j + 1"
        and lt: "len (ps ! j) < len p"
        and all: "\<forall>q\<in>set ps. len (ps ! j) \<le> len q"
        and before: "\<forall>j'<j. len (ps ! j) < len (ps ! j')"
      have "\<forall>j'<Suc j. len (ps ! j) < len ((p # ps) ! j')"
        using lt before by (auto simp: less_Suc_eq_0_disj)
      then have "Suc j < length (p # ps) \<and> shortest_name_loop len (p # ps) i mn k = i + Suc j + 1
          \<and> len ((p # ps) ! Suc j) < mn \<and> (\<forall>q\<in>set (p # ps). len ((p # ps) ! Suc j) \<le> len q)
          \<and> (\<forall>j'<Suc j. len ((p # ps) ! Suc j) < len ((p # ps) ! j'))"
        using True j r lt all by auto
      then show ?thesis by blast
    qed
  next
    case False
    from Cons.IH[of "i + 1" mn k] show ?thesis
    proof (elim disjE conjE exE)
      assume "shortest_name_loop len ps (i + 1) mn k = k" and "\<forall>q\<in>set ps. mn \<le> len q"
      then show ?thesis using False by auto
    next
      fix j
      assume j: "j < length ps"
        and r: "shortest_name_loop len ps (i + 1) mn k = i + 1 + j + 1"
        and lt: "len (ps ! j) < mn"
        and all: "\<forall>q\<in>set ps. len (ps ! j) \<le> len q"
        and before: "\<forall>j'<j. len (ps ! j) < len (ps ! j')"
      have pl: "len (ps ! j) < len p" using False lt by auto
      have "\<forall>j'<Suc j. len (ps ! j) < len ((p # ps) ! j')"
        using pl before by (auto simp: less_Suc_eq_0_disj)
      then have "Suc j < length (p # ps) \<and> shortest_name_loop len (p # ps) i mn k = i + Suc j + 1
          \<and> len ((p # ps) ! Suc j) < mn \<and> (\<forall>q\<in>set (p # ps). len ((p # ps) ! Suc j) \<le> len q)
          \<and> (\<forall>j'<Suc j. len ((p # ps) ! Suc j) < len ((p # ps) ! j'))"
        using False j r lt all pl by auto
      then show ?thesis by blast
    qed
  qed
qed

lemma longest_first_max:
  fixes len :: "path \<Rightarrow> u64"
  assumes ne: "g \<noteq> []"
  shows "\<exists>k. autoSelectKeepFiles len fs g ''longest-name'' = Inr {k}
             \<and> first_max (map len g) k"
proof -
  have res: "autoSelectKeepFiles len fs g ''longest-name''
               = Inr {longest_name_loop len g 0 0 1}"
    by (simp add: autoSelectKeepFiles_def)
  from longest_name_loop_char[of len g 0 0 1]
  have "first_max (map len g) (longest_name_loop len g 0 0 1)"
  proof (elim disjE conjE exE)
    assume r: "longest_name_loop len g 0 0 1 = 1" and all: "\<forall>p\<in>set g. len p \<le> 0"
    then have "\<forall>p\<in>set g. len p = 0" by simp
    then show ?thesis using ne r
      by (cases g) (auto simp: first_max_def list_all_iff)
  next
    fix j
    assume j: "j < length g" and r: "longest_name_loop len g 0 0 1 = 0 + j + 1"
      and all: "\<forall>p\<in>set g. len p \<le> len (g ! j)"
      and before: "\<forall>j'<j. len (g ! j') < len (g ! j)"
    have "list_all (\<lambda>v. v \<noteq> len (g ! j)) (take j (map len g))"
      using before j by (auto simp: list_all_length)
    then show ?thesis using j r all
      by (auto simp: first_max_def list_all_iff)
  qed
  with res show ?thesis by blast
qed

lemma shortest_first_min:
  fixes len :: "path \<Rightarrow> u64"
  assumes ne: "g \<noteq> []"
  shows "\<exists>k. autoSelectKeepFiles len fs g ''shortest-name'' = Inr {k}
             \<and> first_min (map len g) k"
proof -
  have res: "autoSelectKeepFiles len fs g ''shortest-name''
               = Inr {shortest_name_loop len g 0 (- 1) 1}"
    by (simp add: autoSelectKeepFiles_def)
  from shortest_name_loop_char[of len g 0 "- 1" 1]
  have "first_min (map len g) (shortest_name_loop len g 0 (- 1) 1)"
  proof (elim disjE conjE exE)
    assume r: "shortest_name_loop len g 0 (- 1) 1 = 1" and all: "\<forall>p\<in>set g. - 1 \<le> len p"
    have "len p = - 1" if "p \<in> set g" for p
      using all that by (simp add: word_order.extremum_unique)
    then show ?thesis using ne r
      by (cases g) (auto simp: first_min_def list_all_iff)
  next
    fix j
    assume j: "j < length g" and r: "shortest_name_loop len g 0 (- 1) 1 = 0 + j + 1"
      and all: "\<forall>p\<in>set g. len (g ! j) \<le> len p"
      and before: "\<forall>j'<j. len (g ! j) < len (g ! j')"
    have "list_all (\<lambda>v. v \<noteq> len (g ! j)) (take j (map len g))"
      using before j by (auto simp: list_all_length)
    then show ?thesis using j r all
      by (auto simp: first_min_def list_all_iff)
  qed
  with res show ?thesis by blast
qed

text \<open>
  Claim C5, as amended. For a non-empty group, \<open>oldest\<close> keeps the member with
  the least modification time, \<open>longest-name\<close> the one with the greatest and
  \<open>shortest-name\<close> the one with the least file-name length, and among tied
  members each of the three keeps the one with the lowest 1-based index;
  \<open>newest\<close> keeps the member with the greatest modification time and among tied
  members the one with the highest index. (The two strategies that read
  modification times need every member to be there.)
\<close>

theorem autoSelectKeepFiles_tie_breaking:
  fixes filenameLength :: "path \<Rightarrow> u64"
  assumes "group' \<noteq> []"
  shows "(set group' \<subseteq> dom fs \<longrightarrow>
            (\<exists>k. autoSelectKeepFiles filenameLength fs group' ''newest'' = Inr {k}
                 \<and> last_max (map (mtime_of fs) group') k))
       \<and> (set group' \<subseteq> dom fs \<longrightarrow>
            (\<exists>k. autoSelectKeepFiles filenameLength fs group' ''oldest'' = Inr {k}
                 \<and> first_min (map (mtime_of fs) group') k))
       \<and> (\<exists>k. autoSelectKeepFiles filenameLength fs group' ''longest-name'' = Inr {k}
                 \<and> first_max (map filenameLength group') k)
       \<and> (\<exists>k. autoSelectKeepFiles filenameLength fs group' ''shortest-name'' = Inr {k}
                 \<and> first_min (map filenameLength group') k)"
  using newest_last_max[OF assms] oldest_first_min[OF assms]
    longest_first_max[OF assms] shortest_first_min[OF assms]
  by blast

theorem autoSelectKeepFiles_tie_breaking_witness:
  "autoSelectKeepFiles example_length example_fs [''b'', ''c'', ''a''] ''newest'' = Inr {2}
   \<and> last_max (map (mtime_of example_fs) [''b'', ''c'', ''a'']) 2
   \<and> autoSelectKeepFiles example_length example_fs [''b'', ''c'', ''a''] ''oldest'' = Inr {3}
   \<and> autoSelectKeepFiles example_length example_fs [''b'', ''c'', ''a''] ''longest-name'' = Inr {1}
   \<and> autoSelectKeepFiles example_length example_fs [''b'', ''c'', ''a''] ''shortest-name'' = Inr {1}"
  using autoSelectKeepFiles_tie_breaking[of "[''b'', ''c'', ''a'']" example_fs example_length]
  by (simp add: autoSelectKeepFiles_def example_fs_def example_length_def last_max_def
      mtime_of_def)

text \<open>Two members with equal modification times: \<open>newest\<close> keeps member 2, not the
  member with the lowest index.\<close>

theorem newest_tie_keeps_highest_index:
  "mtime_of example_fs ''b'' = mtime_of example_fs ''c''
   \<and> autoSelectKeepFiles example_length example_fs [''b'', ''c''] ''newest'' = Inr {2}"
  by (simp add: autoSelectKeepFiles_def example_fs_def mtime_of_def)

lemma first_min_range: "first_min vs k \<Longrightarrow> 1 \<le> k \<and> k \<le> length vs"
  by (simp add: first_min_def)

lemma first_max_range: "first_max vs k \<Longrightarrow> 1 \<le> k \<and> k \<le> length vs"
  by (simp add: first_max_def)

lemma last_max_range: "last_max vs k \<Longrightarrow> 1 \<le> k \<and> k \<le> length vs"
  by (simp add: last_max_def)

lemma autoSelectKeepFiles_known:
  fixes filenameLength :: "path \<Rightarrow> u64"
  assumes ne: "g \<noteq> []" and known: "strategy \<in> known_strategies"
    and ex: "strategy = ''newest'' \<or> strategy = ''oldest'' \<Longrightarrow> set g \<subseteq> dom fs"
  shows "\<exists>k. autoSelectKeepFiles filenameLength fs g strategy = Inr {k}
             \<and> 1 \<le> k \<and> k \<le> length g"
proof -
  from known consider "strategy = ''newest''" | "strategy = ''oldest''"
    | "strategy = ''longest-name''" | "strategy = ''shortest-name''"
    by (auto simp: known_strategies_def)
  then show ?thesis
  proof cases
    case 1
    with newest_last_max[OF ne ex, of filenameLength] last_max_range[of "map (mtime_of fs) g"]
    show ?thesis by fastforce
  next
    case 2
    with oldest_first_min[OF ne ex, of filenameLength] first_min_range[of "map (mtime_of fs) g"]
    show ?thesis by fastforce
  next
    case 3
    with longest_first_max[OF ne, of filenameLength fs] first_max_range[of "map filenameLength g"]
    show ?thesis by fastforce
  next
    case 4
    with shortest_first_min[OF ne, of filenameLength fs] first_min_range[of "map filenameLength g"]
    show ?thesis by fastforce
  qed
qed

lemma autoSelectKeepFiles_unknown:
  assumes "strategy \<notin> known_strategies"
  shows "autoSelectKeepFiles filenameLength fs g strategy = Inr {}"
  using assms by (simp add: autoSelectKeepFiles_def known_strategies_def)

lemma chooseStrategy_known: "fst (chooseStrategy strategyInput) \<in> known_strategies"
  by (simp add: chooseStrategy_def known_strategies_def)

text \<open>
  Claim C10. For a non-empty group, \<^verbatim>\<open>autoSelectKeepFiles\<close> returns a singleton
  \<open>{k}\<close> with \<open>1 \<le> k \<le> |group|\<close> for each of the four known strategy strings
  (the members being there when modification times are read), and the empty
  set for every other string; the empty set is not a valid keep set. The
  strategy menu of the controller yields one of the four known strings for
  every input, so the other case is not reached from it.
\<close>

theorem autoSelectKeepFiles_result:
  fixes filenameLength :: "path \<Rightarrow> u64"
  assumes "group' \<noteq> []"
  shows "(strategy \<in> known_strategies \<longrightarrow>
            (strategy = ''newest'' \<or> strategy = ''oldest'' \<longrightarrow> set group' \<subseteq> dom fs) \<longrightarrow>
            (\<exists>k. autoSelectKeepFiles filenameLength fs group' strategy = Inr {k}
                 \<and> 1 \<le> k \<and> k \<le> length group'))
       \<and> (strategy \<notin> known_strategies \<longrightarrow>
            autoSelectKeepFiles filenameLength fs group' strategy = Inr {}
            \<and> \<not> valid_keep_set group' {})
       \<and> fst (chooseStrategy strategyInput) \<in> known_strategies"
  using autoSelectKeepFiles_known[OF assms, of strategy fs filenameLength]
    autoSelectKeepFiles_unknown[of strategy filenameLength fs group']
    chooseStrategy_known[of strategyInput]
  by (auto simp: valid_keep_set_def)

theorem autoSelectKeepFiles_result_witness:
  "autoSelectKeepFiles example_length example_fs [''a'', ''b''] ''oldest'' = Inr {1}
   \<and> autoSelectKeepFiles example_length example_fs [''a'', ''b''] ''largest'' = Inr {}
   \<and> fst (chooseStrategy ''9'') = ''newest''"
  using autoSelectKeepFiles_result[of "[''a'', ''b'']" "''oldest''" example_fs example_length "''9''"]
    autoSelectKeepFiles_result[of "[''a'', ''b'']" "''largest''" example_fs example_length "''9''"]
  by (simp add: autoSelectKeepFiles_def example_fs_def known_strategies_def chooseStrategy_def)

section \<open>Properties of the retention plan\<close>

lemma keep_ok_default:
  assumes "\<forall>g\<in>set groups. g \<noteq> []"
  shows "keep_ok groups (replicate (length groups) {1})"
  using assms
  by (auto simp: keep_ok_def list_all2_conv_all_nth valid_keep_set_def Suc_le_eq)

lemma keep_ok_update:
  assumes "keep_ok groups keepFiles" and "n < length groups"
    and "valid_keep_set (groups ! n) keepSet"
  shows "keep_ok groups (keepFiles[n := keepSet])"
  using assms
  by (auto simp: keep_ok_def list_all2_conv_all_nth nth_list_update)

lemma last_write_times_present:
  "last_write_times fs ps i = Inr ts \<Longrightarrow> set ps \<subseteq> dom fs"
  by (induction ps arbitrary: i ts) (auto split: option.splits sum.splits)

lemma autoSelectKeepFiles_valid:
  fixes filenameLength :: "path \<Rightarrow> u64"
  assumes res: "autoSelectKeepFiles filenameLength fs g strategy = Inr keepSet"
    and ne: "g \<noteq> []" and known: "strategy \<in> known_strategies"
  shows "valid_keep_set g keepSet"
proof -
  have "set g \<subseteq> dom fs" if "strategy = ''newest'' \<or> strategy = ''oldest''"
    using that res
    by (auto simp: autoSelectKeepFiles_def split: sum.splits dest!: last_write_times_present)
  from autoSelectKeepFiles_known[OF ne known this, of filenameLength] res
  show ?thesis by (auto simp: valid_keep_set_def)
qed

lemma apply_to_all_valid:
  fixes filenameLength :: "path \<Rightarrow> u64"
  assumes "apply_to_all filenameLength fs gs i strategy keepFiles = Inr keepFiles'"
    and "groups = pre @ gs" and "length pre = i"
    and "\<forall>g\<in>set gs. g \<noteq> []" and "strategy \<in> known_strategies"
    and "keep_ok groups keepFiles"
  shows "keep_ok groups keepFiles'"
  using assms
proof (induction gs arbitrary: i keepFiles pre)
  case Nil
  then show ?case by simp
next
  case (Cons g gs)
  from Cons.prems(1) obtain keepSet where
    sel: "autoSelectKeepFiles filenameLength fs g strategy = Inr keepSet"
    and rest: "apply_to_all filenameLength fs gs (i + 1) strategy (keepFiles[i := keepSet])
                 = Inr keepFiles'"
    by (auto split: sum.splits)
  have gi: "groups ! i = g" and ilt: "i < length groups"
    using Cons.prems(2,3) by auto
  have "valid_keep_set g keepSet"
    using autoSelectKeepFiles_valid[OF sel] Cons.prems(4,5) by simp
  then have ok: "keep_ok groups (keepFiles[i := keepSet])"
    using keep_ok_update[OF Cons.prems(6) ilt] gi by simp
  show ?case
    by (rule Cons.IH[OF rest, of "pre @ [g]"])
       (use Cons.prems ok in auto)
qed

lemma parse_selection_subset:
  assumes "parse_selection n cs acc = (True, keepSet, complaints)" and "acc \<subseteq> {1 .. n}"
  shows "keepSet \<subseteq> {1 .. n}"
  using assms
  by (induction cs arbitrary: acc) (auto simp: Let_def split: if_splits)

lemma command_all_keeps_ok:
  fixes filenameLength :: "path \<Rightarrow> u64"
  assumes "command_all filenameLength fs groups keepFiles inp = Continue keepFiles' inp' shown"
    and "\<forall>g\<in>set groups. g \<noteq> []" and "keep_ok groups keepFiles"
  shows "keep_ok groups keepFiles'"
proof -
  from assms(1) obtain strategyInput strategy warning where
    cs: "chooseStrategy strategyInput = (strategy, warning)"
    and ap: "apply_to_all filenameLength fs groups 0 strategy keepFiles = Inr keepFiles'"
    by (auto simp: command_all_def split: prod.splits sum.splits)
  have known: "strategy \<in> known_strategies"
    using chooseStrategy_known[of strategyInput] cs by simp
  show ?thesis
    by (rule apply_to_all_valid[OF ap, where pre = "[]"])
       (use assms known in auto)
qed

lemma group_number_index:
  assumes "\<not> (groupNum < 1 \<or> int (length groups) < groupNum)"
  shows "nat (groupNum - 1) < length groups"
  using assms by auto

lemma command_auto_keeps_ok:
  fixes filenameLength :: "path \<Rightarrow> u64"
  assumes "command_auto filenameLength fs groups keepFiles inp = Continue keepFiles' inp' shown"
    and "\<forall>g\<in>set groups. g \<noteq> []" and "keep_ok groups keepFiles"
  shows "keep_ok groups keepFiles'"
  using assms(1)
proof (clarsimp simp: command_auto_def split: prod.splits sum.splits if_splits, goal_cases)
  case 1 then show ?case using assms(3) by simp
next
  case 2 then show ?case using assms(3) by simp
next
  case 3 then show ?case using assms(3) by simp
next
  case 4 then show ?case using assms(3) by simp
next
  case (5 groupInput inp1 groupNum strategyInput strategy warning keepSet)
  have idx: "nat (groupNum - 1) < length groups" using 5 by auto
  then have "groups ! nat (groupNum - 1) \<noteq> []" using assms(2) by auto
  moreover have "strategy \<in> known_strategies"
    using chooseStrategy_known[of strategyInput] 5 by simp
  ultimately have "valid_keep_set (groups ! nat (groupNum - 1)) keepSet"
    using autoSelectKeepFiles_valid 5 by blast
  then show ?case using keep_ok_update[OF assms(3) idx] 5 by simp
qed

lemma command_group_keeps_ok:
  assumes it: "command_group fs groups keepFiles input inp = Continue keepFiles' inp' shown"
    and ok: "keep_ok groups keepFiles"
  shows "keep_ok groups keepFiles'"
proof (cases "keepFiles' = keepFiles")
  case True
  with ok show ?thesis by simp
next
  case False
  with it obtain groupNum selection keepSet complaints where
    range: "\<not> (groupNum < 1 \<or> int (length groups) < groupNum)"
    and ps: "parse_selection (length (groups ! nat (groupNum - 1))) selection {}
               = (True, keepSet, complaints)"
    and ne: "keepSet \<noteq> {}"
    and upd: "keepFiles' = keepFiles[nat (groupNum - 1) := keepSet]"
    by (auto simp: command_group_def Let_def split: prod.splits sum.splits if_splits)
  have "keepSet \<subseteq> {1 .. length (groups ! nat (groupNum - 1))}"
    using parse_selection_subset[OF ps] by simp
  with ne have "valid_keep_set (groups ! nat (groupNum - 1)) keepSet"
    by (simp add: valid_keep_set_def)
  with keep_ok_update[OF ok group_number_index[OF range]] upd show ?thesis by simp
qed

lemma command_view_keeps_plan:
  "command_view fs junk groups keepFiles input inp = Continue keepFiles' inp' shown
     \<Longrightarrow> keepFiles' = keepFiles"
  by (auto simp: command_view_def Let_def split: sum.splits if_splits)

lemma loop_body_cases:
  assumes "loop_body filenameLength fs junk groups keepFiles inp
             = Continue keepFiles' inp' shown"
  shows "keepFiles' = keepFiles
       \<or> (\<exists>i. command_all filenameLength fs groups keepFiles i = Continue keepFiles' inp' shown)
       \<or> (\<exists>i. command_auto filenameLength fs groups keepFiles i = Continue keepFiles' inp' shown)
       \<or> (\<exists>l i. command_group fs groups keepFiles l i = Continue keepFiles' inp' shown)"
  using assms
  by (auto simp: loop_body_def Let_def dest: command_view_keeps_plan
           split: prod.splits sum.splits if_splits)

lemma loop_body_keeps_ok:
  fixes filenameLength :: "path \<Rightarrow> u64"
  assumes it: "loop_body filenameLength fs junk groups keepFiles inp
                 = Continue keepFiles' inp' shown"
    and ne: "\<forall>g\<in>set groups. g \<noteq> []" and ok: "keep_ok groups keepFiles"
  shows "keep_ok groups keepFiles'"
  using loop_body_cases[OF it] ok command_all_keeps_ok[OF _ ne ok]
    command_auto_keeps_ok[OF _ ne ok] command_group_keeps_ok[OF _ ok]
  by blast

lemma retention_loop_keeps_ok:
  fixes filenameLength :: "path \<Rightarrow> u64"
  assumes "retention_loop filenameLength fs junk groups keepFiles inp out
             = Returns (keepFiles', inp', out')"
    and "\<forall>g\<in>set groups. g \<noteq> []" and "keep_ok groups keepFiles"
  shows "keep_ok groups keepFiles'"
  using assms
proof (induction filenameLength fs junk groups keepFiles inp out
    rule: retention_loop.induct)
  case (1 filenameLength fs junk groups keepFiles inp out)
  from "1.prems"(1) have ne: "inp \<noteq> []"
    by (auto simp: retention_loop.simps[of _ _ _ _ _ inp])
  show ?case
  proof (cases "loop_body filenameLength fs junk groups keepFiles inp")
    case Break
    with "1.prems" ne show ?thesis
      by (simp add: retention_loop.simps[of _ _ _ _ _ inp])
  next
    case (Raise e)
    with "1.prems" ne show ?thesis
      by (simp add: retention_loop.simps[of _ _ _ _ _ inp])
  next
    case (Continue k i shown)
    have ok: "keep_ok groups k"
      using loop_body_keeps_ok[OF Continue "1.prems"(2,3)] .
    have "retention_loop filenameLength fs junk groups k i (out @ shown)
            = Returns (keepFiles', inp', out')"
      using "1.prems"(1) ne Continue
      by (simp add: retention_loop.simps[of _ _ _ _ _ inp])
    from "1.IH"[OF ne Continue this "1.prems"(2) ok] show ?thesis .
  qed
qed

lemma letUserModifyRetention_keeps_ok:
  fixes filenameLength :: "path \<Rightarrow> u64"
  assumes "letUserModifyRetention filenameLength fs junk groups inp
             = Returns (keepFiles, inp', out')"
    and "\<forall>g\<in>set groups. g \<noteq> []"
  shows "keep_ok groups keepFiles"
  using retention_loop_keeps_ok[OF assms(1)[unfolded letUserModifyRetention_def] assms(2)
      keep_ok_default[OF assms(2)]] .

lemma distinct_concat_nth:
  assumes "distinct (concat gs)" "a < length gs" "b < length (gs ! a)"
    "c < length gs" "d < length (gs ! c)" "gs ! a ! b = gs ! c ! d"
  shows "a = c \<and> b = d"
  using assms
proof (induction gs arbitrary: a c)
  case Nil
  then show ?case by simp
next
  case (Cons g gs)
  from Cons.prems(1) have dg: "distinct g" and dgs: "distinct (concat gs)"
    and disj: "set g \<inter> set (concat gs) = {}" by auto
  have inconcat: "gs ! m ! j \<in> set (concat gs)" if "m < length gs" "j < length (gs ! m)" for m j
    using that by (auto intro!: bexI[of _ "gs ! m"])
  show ?case
  proof (cases a)
    case 0
    note a0 = this
    show ?thesis
    proof (cases c)
      case 0
      with a0 Cons.prems dg show ?thesis by (simp add: nth_eq_iff_index_eq)
    next
      case (Suc c')
      have "g ! b \<in> set g" using a0 Cons.prems(3) by simp
      moreover have "gs ! c' ! d \<in> set (concat gs)"
        using Suc Cons.prems by (intro inconcat) simp_all
      moreover have "g ! b = gs ! c' ! d" using a0 Suc Cons.prems by simp
      ultimately show ?thesis using disj by auto
    qed
  next
    case (Suc a')
    note aS = this
    show ?thesis
    proof (cases c)
      case 0
      have "g ! d \<in> set g" using 0 Cons.prems(5) by simp
      moreover have "gs ! a' ! b \<in> set (concat gs)"
        using aS Cons.prems by (intro inconcat) simp_all
      moreover have "gs ! a' ! b = g ! d" using aS 0 Cons.prems by simp
      ultimately show ?thesis using disj by auto
    next
      case (Suc c')
      with aS Cons.prems Cons.IH[OF dgs, of a' c'] show ?thesis by simp
    qed
  qed
qed

lemma fs_remove_frame:
  assumes "fs_remove fs p = Inr fs'" and "q \<noteq> p"
  shows "fs' q = fs q"
  using assms by (auto simp: fs_remove_def split: option.splits if_splits)

lemma unkept_members_nth:
  assumes "q \<in> set (unkept_members ps i keepSet)"
  shows "\<exists>j<length ps. q = ps ! j \<and> i + j + 1 \<notin> keepSet"
  using assms
proof (induction ps arbitrary: i)
  case Nil
  then show ?case by simp
next
  case (Cons p ps)
  from Cons.prems consider "q = p" "i + 1 \<notin> keepSet"
    | "q \<in> set (unkept_members ps (i + 1) keepSet)"
    by (auto split: if_splits)
  then show ?case
  proof cases
    case 1
    then have "0 < length (p # ps) \<and> q = (p # ps) ! 0 \<and> i + 0 + 1 \<notin> keepSet" by simp
    then show ?thesis by blast
  next
    case 2
    from Cons.IH[OF 2] obtain j where "j < length ps" "q = ps ! j" "i + 1 + j + 1 \<notin> keepSet"
      by blast
    then have "Suc j < length (p # ps) \<and> q = (p # ps) ! Suc j \<and> i + Suc j + 1 \<notin> keepSet"
      by simp
    then show ?thesis by blast
  qed
qed

lemma unkept_groups_nth:
  assumes "q \<in> set (unkept_groups gs gi keepFiles)"
  shows "\<exists>m j. m < length gs \<and> j < length (gs ! m) \<and> q = gs ! m ! j
               \<and> j + 1 \<notin> keepFiles ! (gi + m)"
  using assms
proof (induction gs arbitrary: gi)
  case Nil
  then show ?case by simp
next
  case (Cons g gs)
  from Cons.prems consider "q \<in> set (unkept_members g 0 (keepFiles ! gi))"
    | "q \<in> set (unkept_groups gs (gi + 1) keepFiles)"
    by (auto split: if_splits)
  then show ?case
  proof cases
    case 1
    from unkept_members_nth[OF 1] obtain j where "j < length g" "q = g ! j"
      "j + 1 \<notin> keepFiles ! gi" by auto
    then have "0 < length (g # gs) \<and> j < length ((g # gs) ! 0) \<and> q = (g # gs) ! 0 ! j
        \<and> j + 1 \<notin> keepFiles ! (gi + 0)" by simp
    then show ?thesis by blast
  next
    case 2
    from Cons.IH[OF 2] obtain m j where "m < length gs" "j < length (gs ! m)"
      "q = gs ! m ! j" "j + 1 \<notin> keepFiles ! (gi + 1 + m)" by blast
    then have "Suc m < length (g # gs) \<and> j < length ((g # gs) ! Suc m)
        \<and> q = (g # gs) ! Suc m ! j \<and> j + 1 \<notin> keepFiles ! (gi + Suc m)" by simp
    then show ?thesis by blast
  qed
qed

lemma delete_members_calls:
  assumes "\<forall>q. q \<notin> set (removeCalls st) \<longrightarrow> fsys st q = fs q"
  shows "(\<forall>q. q \<notin> set (removeCalls (snd (delete_members d ps i keepSet st)))
              \<longrightarrow> fsys (snd (delete_members d ps i keepSet st)) q = fs q)
       \<and> set (removeCalls (snd (delete_members d ps i keepSet st)))
           \<subseteq> set (removeCalls st) \<union> set (unkept_members ps i keepSet)"
  using assms
proof (induction ps arbitrary: i st)
  case Nil
  then show ?case by simp
next
  case (Cons p ps)
  show ?case
  proof (cases "i + 1 \<in> keepSet")
    case True
    with Cons.IH[OF Cons.prems, of "i + 1"] show ?thesis by simp
  next
    case False
    note unkept = this
    show ?thesis
    proof (cases "getFileSize (fsys st) p")
      case (Inl e)
      with unkept Cons.prems show ?thesis by auto
    next
      case (Inr fileSize)
      note sz = this
      show ?thesis
      proof (cases d)
        case True
        let ?st = "st\<lparr>successfullyDeleted := successfullyDeleted st + 1,
                       actualSpaceSaved := actualSpaceSaved st + fileSize,
                       printed := printed st @ [WouldDelete (i + 1) p]\<rparr>"
        have "\<forall>q. q \<notin> set (removeCalls ?st) \<longrightarrow> fsys ?st q = fs q"
          using Cons.prems by simp
        from Cons.IH[OF this, of "i + 1"] unkept sz True show ?thesis by auto
      next
        case False
        show ?thesis
        proof (cases "fs_remove (fsys st) p")
          case (Inl e)
          let ?st = "st\<lparr>removeCalls := removeCalls st @ [p],
                         failedToDelete := failedToDelete st + 1,
                         printed := printed st @ [DeleteFailed (i + 1) p]\<rparr>"
          have "\<forall>q. q \<notin> set (removeCalls ?st) \<longrightarrow> fsys ?st q = fs q"
            using Cons.prems by simp
          from Cons.IH[OF this, of "i + 1"] unkept sz False Inl
          show ?thesis by auto
        next
          case (Inr fs')
          let ?st = "st\<lparr>fsys := fs', removeCalls := removeCalls st @ [p],
                         successfullyDeleted := successfullyDeleted st + 1,
                         actualSpaceSaved := actualSpaceSaved st + fileSize,
                         printed := printed st @ [Deleted (i + 1) p]\<rparr>"
          have "\<forall>q. q \<notin> set (removeCalls ?st) \<longrightarrow> fsys ?st q = fs q"
            using Cons.prems fs_remove_frame[OF Inr] by simp
          from Cons.IH[OF this, of "i + 1"] unkept sz False Inr
          show ?thesis by auto
        qed
      qed
    qed
  qed
qed

lemma delete_groups_calls:
  assumes "\<forall>q. q \<notin> set (removeCalls st) \<longrightarrow> fsys st q = fs q"
  shows "(\<forall>q. q \<notin> set (removeCalls (snd (delete_groups d gs gi keepFiles st)))
              \<longrightarrow> fsys (snd (delete_groups d gs gi keepFiles st)) q = fs q)
       \<and> set (removeCalls (snd (delete_groups d gs gi keepFiles st)))
           \<subseteq> set (removeCalls st) \<union> set (unkept_groups gs gi keepFiles)"
  using assms
proof (induction gs arbitrary: gi st)
  case Nil
  then show ?case by simp
next
  case (Cons g gs)
  show ?case
  proof (cases "gi < length keepFiles")
    case False
    with Cons.prems show ?thesis by simp
  next
    case True
    obtain e st' where dm: "delete_members d g 0 (keepFiles ! gi) st = (e, st')"
      by (cases "delete_members d g 0 (keepFiles ! gi) st")
    from delete_members_calls[OF Cons.prems, of d g 0 "keepFiles ! gi"] dm
    have fr: "\<forall>q. q \<notin> set (removeCalls st') \<longrightarrow> fsys st' q = fs q"
      and sub: "set (removeCalls st') \<subseteq> set (removeCalls st)
                  \<union> set (unkept_members g 0 (keepFiles ! gi))" by simp_all
    show ?thesis
    proof (cases e)
      case (Some err)
      with True dm fr sub show ?thesis by auto
    next
      case None
      from Cons.IH[OF fr, of "gi + 1"] True dm None sub show ?thesis by auto
    qed
  qed
qed

lemma performDeletion_state:
  "fsys (snd (performDeletionWithCustomRetention d fs groups keepFiles))
     = fsys (snd (delete_groups d groups 0 keepFiles
         \<lparr>fsys = fs, removeCalls = [], successfullyDeleted = 0, failedToDelete = 0,
          actualSpaceSaved = 0, printed = [StartDeleting]\<rparr>))"
  "removeCalls (snd (performDeletionWithCustomRetention d fs groups keepFiles))
     = removeCalls (snd (delete_groups d groups 0 keepFiles
         \<lparr>fsys = fs, removeCalls = [], successfullyDeleted = 0, failedToDelete = 0,
          actualSpaceSaved = 0, printed = [StartDeleting]\<rparr>))"
  by (simp_all add: performDeletionWithCustomRetention_def split: prod.splits option.splits)

lemma performGlobalDeletion_eq:
  "performGlobalDeletionWithCustomRetention d fs groups keepFiles totalSpaceSaved
     = performDeletionWithCustomRetention d fs groups keepFiles"
  by (simp add: performGlobalDeletionWithCustomRetention_def
      performDeletionWithCustomRetention_def)

lemma deleter_keeps_member:
  assumes ok: "keep_ok groups keepFiles" and dist: "distinct (concat groups)"
    and gi: "gi < length groups"
  shows "\<exists>i\<in>keepFiles ! gi. 1 \<le> i \<and> i \<le> length (groups ! gi)
           \<and> groups ! gi ! (i - 1)
                \<notin> set (removeCalls (snd (performDeletionWithCustomRetention d fs groups keepFiles)))
           \<and> fsys (snd (performDeletionWithCustomRetention d fs groups keepFiles))
                (groups ! gi ! (i - 1)) = fs (groups ! gi ! (i - 1))"
proof -
  let ?init = "\<lparr>fsys = fs, removeCalls = [], successfullyDeleted = 0, failedToDelete = 0,
          actualSpaceSaved = 0, printed = [StartDeleting]\<rparr>"
  let ?st = "snd (delete_groups d groups 0 keepFiles ?init)"
  have "valid_keep_set (groups ! gi) (keepFiles ! gi)"
    using ok gi by (simp add: keep_ok_def list_all2_conv_all_nth)
  then have "keepFiles ! gi \<noteq> {}"
    and inrange: "keepFiles ! gi \<subseteq> {1 .. length (groups ! gi)}"
    by (simp_all add: valid_keep_set_def)
  then obtain i where i: "i \<in> keepFiles ! gi" by auto
  with inrange have lo: "1 \<le> i" and hi: "i \<le> length (groups ! gi)" by auto
  let ?q = "groups ! gi ! (i - 1)"
  have "\<forall>q. q \<notin> set (removeCalls ?init) \<longrightarrow> fsys ?init q = fs q" by simp
  note dg = delete_groups_calls[OF this, of d groups 0 keepFiles]
  have fr: "\<forall>q. q \<notin> set (removeCalls ?st) \<longrightarrow> fsys ?st q = fs q"
    by (rule conjunct1[OF dg])
  have sub: "set (removeCalls ?st) \<subseteq> set (unkept_groups groups 0 keepFiles)"
    using conjunct2[OF dg] by simp
  have "?q \<notin> set (unkept_groups groups 0 keepFiles)"
  proof
    assume "?q \<in> set (unkept_groups groups 0 keepFiles)"
    from unkept_groups_nth[OF this] obtain m j where m: "m < length groups"
      and j: "j < length (groups ! m)" and eq: "?q = groups ! m ! j"
      and out: "j + 1 \<notin> keepFiles ! (0 + m)" by blast
    have "i - 1 < length (groups ! gi)" using lo hi by simp
    from distinct_concat_nth[OF dist gi this m j eq] have "gi = m" "i - 1 = j" by simp_all
    with lo have "gi = m" "j + 1 = i" by simp_all
    with out i show False by simp
  qed
  with sub have notrem: "?q \<notin> set (removeCalls ?st)" by auto
  with fr have "fsys ?st ?q = fs ?q" by simp
  with notrem i lo hi show ?thesis
    unfolding performDeletion_state by blast
qed

text \<open>
  Claim C3. For groups that are not empty (emitted groups have at least two
  members), the plan built on construction keeps member 1 of every group and
  satisfies the invariant that every \<open>keep[g]\<close> is a non-empty subset of
  \<open>{1..|group g|}\<close>; every pass through the body of the interactive loop
  preserves the invariant, so the plan the loop returns satisfies it; and for
  a plan that satisfies it, over groups whose paths are pairwise different,
  the deleter leaves in every group a kept member that it never hands to
  \<^verbatim>\<open>fs::remove\<close> and whose file is as it was.
\<close>

theorem retention_floor:
  fixes filenameLength :: "path \<Rightarrow> u64"
  assumes ne: "\<forall>g\<in>set duplicateGroups. g \<noteq> []"
  shows "keep_ok duplicateGroups (replicate (length duplicateGroups) {1})
       \<and> (\<forall>keepFiles inp keepFiles' inp' shown.
             keep_ok duplicateGroups keepFiles \<longrightarrow>
             loop_body filenameLength fs junk duplicateGroups keepFiles inp
               = Continue keepFiles' inp' shown \<longrightarrow>
             keep_ok duplicateGroups keepFiles')
       \<and> (\<forall>inp keepFiles inp' shown.
             letUserModifyRetention filenameLength fs junk duplicateGroups inp
               = Returns (keepFiles, inp', shown) \<longrightarrow>
             keep_ok duplicateGroups keepFiles)
       \<and> (\<forall>keepFiles dryRun.
             keep_ok duplicateGroups keepFiles \<longrightarrow> distinct (concat duplicateGroups) \<longrightarrow>
             (\<forall>gi<length duplicateGroups. \<exists>i\<in>keepFiles ! gi.
                1 \<le> i \<and> i \<le> length (duplicateGroups ! gi)
                \<and> duplicateGroups ! gi ! (i - 1)
                     \<notin> set (removeCalls (snd (performDeletionWithCustomRetention dryRun fs
                                                 duplicateGroups keepFiles)))
                \<and> fsys (snd (performDeletionWithCustomRetention dryRun fs
                               duplicateGroups keepFiles)) (duplicateGroups ! gi ! (i - 1))
                     = fs (duplicateGroups ! gi ! (i - 1))))"
proof (intro conjI allI impI)
  show "keep_ok duplicateGroups (replicate (length duplicateGroups) {1})"
    by (rule keep_ok_default[OF ne])
next
  fix keepFiles inp keepFiles' inp' shown
  assume "keep_ok duplicateGroups keepFiles"
    and "loop_body filenameLength fs junk duplicateGroups keepFiles inp
           = Continue keepFiles' inp' shown"
  then show "keep_ok duplicateGroups keepFiles'"
    using loop_body_keeps_ok[OF _ ne] by blast
next
  fix inp keepFiles inp' shown
  assume "letUserModifyRetention filenameLength fs junk duplicateGroups inp
            = Returns (keepFiles, inp', shown)"
  then show "keep_ok duplicateGroups keepFiles"
    by (rule letUserModifyRetention_keeps_ok[OF _ ne])
next
  fix keepFiles dryRun gi
  assume "keep_ok duplicateGroups keepFiles" and "distinct (concat duplicateGroups)"
    and "gi < length duplicateGroups"
  then show "\<exists>i\<in>keepFiles ! gi.
                1 \<le> i \<and> i \<le> length (duplicateGroups ! gi)
                \<and> duplicateGroups ! gi ! (i - 1)
                     \<notin> set (removeCalls (snd (performDeletionWithCustomRetention dryRun fs
                                                 duplicateGroups keepFiles)))
                \<and> fsys (snd (performDeletionWithCustomRetention dryRun fs
                               duplicateGroups keepFiles)) (duplicateGroups ! gi ! (i - 1))
                     = fs (duplicateGroups ! gi ! (i - 1))"
    by (rule deleter_keeps_member)
qed

theorem retention_floor_witness:
  "(\<exists>shown. letUserModifyRetention example_length example_fs 0 [[''a'', ''b'']]
               [''1'', ''2'', ''done''] = Returns ([{2}], [], shown))
   \<and> keep_ok [[''a'', ''b'']] [{2}]
   \<and> fsys (snd (performDeletionWithCustomRetention False example_fs [[''a'', ''b'']] [{2}])) ''b''
       = example_fs ''b''
   \<and> removeCalls (snd (performDeletionWithCustomRetention False example_fs [[''a'', ''b'']] [{2}]))
       = [''a'']"
proof -
  have run: "\<exists>shown. letUserModifyRetention example_length example_fs 0 [[''a'', ''b'']]
               [''1'', ''2'', ''done''] = Returns ([{2}], [], shown)"
    by (simp add: letUserModifyRetention_def retention_loop.simps loop_body_def tolower_def
        command_group_def stoi_def signed_digits_def isspace_def isdigit_def decimal_value_def
        digit_value_def displaySingleGroup_def example_fs_def Let_def)
  have del: "removeCalls (snd (performDeletionWithCustomRetention False example_fs
                                 [[''a'', ''b'']] [{2}])) = [''a'']"
    by (simp add: performDeletionWithCustomRetention_def getFileSize_def fs_remove_def
        example_fs_def)
  have kept: "fsys (snd (performDeletionWithCustomRetention False example_fs
                            [[''a'', ''b'']] [{2}])) ''b'' = example_fs ''b''"
    by (simp add: performDeletionWithCustomRetention_def getFileSize_def fs_remove_def
        example_fs_def)
  have ok: "keep_ok [[''a'', ''b'']] [{2}]"
    by (simp add: keep_ok_def valid_keep_set_def)
  from run ok kept del retention_floor[of "[[''a'', ''b'']]" example_length example_fs 0]
  show ?thesis by simp
qed

section \<open>Properties of invalid input in the command loop\<close>

lemma digit_value_positive: "c \<in> set ''123456789'' \<Longrightarrow> 1 \<le> digit_value c"
  by (auto simp: digit_value_def)

lemma parse_selection_rejects:
  assumes "\<not> list_all (\<lambda>c. c \<in> set ''123456789'' \<and> digit_value c \<le> n) cs"
    and "parse_selection n cs acc = (validInput, newKeepSet, complaints)"
  shows "\<not> validInput \<and> (\<exists>l\<in>set complaints. is_complaint l)"
  using assms
proof (induction cs arbitrary: acc)
  case Nil
  then show ?case by simp
next
  case (Cons c cs)
  show ?case
  proof (cases "c \<in> set ''123456789''")
    case False
    with Cons.prems(2) show ?thesis by auto
  next
    case True
    note digit = this
    show ?thesis
    proof (cases "digit_value c \<le> n")
      case False
      with digit Cons.prems(2) show ?thesis by (auto simp: Let_def)
    next
      case True
      with digit Cons.prems(1) have rest: "\<not> list_all
          (\<lambda>c. c \<in> set ''123456789'' \<and> digit_value c \<le> n) cs" by simp
      have "parse_selection n cs (insert (digit_value c) acc)
              = (validInput, newKeepSet, complaints)"
        using Cons.prems(2) digit True digit_value_positive[OF digit]
        by (auto simp: Let_def)
      from Cons.IH[OF rest this] show ?thesis .
    qed
  qed
qed

lemma command_group_invalid:
  assumes "\<not> (groupNum < 1 \<or> int (length groups) < groupNum)"
    and "stoi input = Inr groupNum"
    and "\<not> selection_ok (length (groups ! nat (groupNum - 1))) (fst (getline inp))"
  shows "\<exists>inp' shown. command_group fs groups keepFiles input inp
                          = Continue keepFiles inp' shown
                     \<and> (\<exists>l\<in>set shown. is_complaint l)"
proof (cases "displaySingleGroup fs (groups ! nat (groupNum - 1)) groupNum")
  case (Inl e)
  with assms(1,2) show ?thesis by (simp add: command_group_def)
next
  case (Inr shown0)
  obtain selection inp' where gl: "getline inp = (selection, inp')" by (cases "getline inp")
  obtain validInput newKeepSet complaints where
    ps: "parse_selection (length (groups ! nat (groupNum - 1))) selection {}
           = (validInput, newKeepSet, complaints)"
    by (cases "parse_selection (length (groups ! nat (groupNum - 1))) selection {}")
  show ?thesis
  proof (cases "selection = []")
    case True
    with ps have "validInput" "newKeepSet = {}" by simp_all
    with assms(1,2) Inr gl ps show ?thesis by (simp add: command_group_def)
  next
    case False
    with assms(3) gl have "\<not> list_all (\<lambda>c. c \<in> set ''123456789''
        \<and> digit_value c \<le> length (groups ! nat (groupNum - 1))) selection"
      by (simp add: selection_ok_def)
    from parse_selection_rejects[OF this ps] have "\<not> validInput"
      and "\<exists>l\<in>set complaints. is_complaint l" by simp_all
    with assms(1,2) Inr gl ps show ?thesis by (auto simp: command_group_def)
  qed
qed

lemma command_auto_invalid:
  assumes "stoi (fst (getline inp)) = Inl e
         \<or> (\<exists>groupNum. stoi (fst (getline inp)) = Inr groupNum
               \<and> (groupNum < 1 \<or> int (length groups) < groupNum))"
  shows "\<exists>shown. command_auto len fs groups keepFiles inp = Continue keepFiles (tl inp) shown
               \<and> (\<exists>l\<in>set shown. is_complaint l)"
  using assms
  by (cases "getline inp") (auto simp: command_auto_def getline_rest[symmetric])

lemma loop_body_group_branch:
  assumes "takes_group_number input"
  shows "loop_body len fs junk groups keepFiles (input # inp)
           = command_group fs groups keepFiles input inp"
  using assms by (simp add: loop_body_def takes_group_number_def Let_def)

lemma loop_body_auto_branch:
  assumes "map tolower input = ''auto''"
  shows "loop_body len fs junk groups keepFiles (input # inp)
           = command_auto len fs groups keepFiles inp"
proof -
  have "input \<noteq> []" using assms by auto
  then show ?thesis using assms by (simp add: loop_body_def Let_def)
qed

lemma loop_body_view_branch:
  assumes "take 4 (map tolower input) = ''view''"
  shows "loop_body len fs junk groups keepFiles (input # inp)
           = command_view fs junk groups keepFiles input inp"
proof -
  have "input \<noteq> []" using assms by auto
  moreover have "map tolower input \<noteq> ''done''" "map tolower input \<noteq> ''list''"
    "map tolower input \<noteq> ''all''"
    using assms by auto
  ultimately show ?thesis using assms by (simp add: loop_body_def Let_def)
qed

lemma parse_selection_accepts:
  assumes "parse_selection n cs {} = (True, newKeepSet, complaints)" and "newKeepSet \<noteq> {}"
  shows "selection_ok n cs"
proof -
  have "cs \<noteq> []" using assms by auto
  moreover have "list_all (\<lambda>c. c \<in> set ''123456789'' \<and> digit_value c \<le> n) cs"
    using parse_selection_rejects[of n cs "{}" True newKeepSet complaints] assms(1) by blast
  ultimately show ?thesis by (simp add: selection_ok_def)
qed

lemma command_group_changes:
  assumes "command_group fs groups keepFiles input inp = Continue keepFiles' inp' shown"
    and "keepFiles' \<noteq> keepFiles"
  shows "\<exists>groupNum. stoi input = Inr groupNum
           \<and> \<not> (groupNum < 1 \<or> int (length groups) < groupNum)
           \<and> selection_ok (length (groups ! nat (groupNum - 1))) (fst (getline inp))"
  using assms
  by (auto simp: command_group_def Let_def dest: parse_selection_accepts
           split: prod.splits sum.splits if_splits)

lemma command_auto_changes:
  assumes "command_auto len fs groups keepFiles inp = Continue keepFiles' inp' shown"
    and "keepFiles' \<noteq> keepFiles"
  shows "\<exists>groupNum. stoi (fst (getline inp)) = Inr groupNum
           \<and> \<not> (groupNum < 1 \<or> int (length groups) < groupNum)"
  using assms
  by (auto simp: command_auto_def split: prod.splits sum.splits if_splits)

lemma loop_body_changes:
  assumes it: "loop_body len fs junk groups keepFiles (input # inp)
                 = Continue keepFiles' inp' shown"
    and ch: "keepFiles' \<noteq> keepFiles"
  shows "map tolower input = ''all''
       \<or> (map tolower input = ''auto''
           \<and> (\<exists>groupNum. stoi (fst (getline inp)) = Inr groupNum
                 \<and> \<not> (groupNum < 1 \<or> int (length groups) < groupNum)))
       \<or> (takes_group_number input
           \<and> (\<exists>groupNum. stoi input = Inr groupNum
                 \<and> \<not> (groupNum < 1 \<or> int (length groups) < groupNum)
                 \<and> selection_ok (length (groups ! nat (groupNum - 1))) (fst (getline inp))))"
proof -
  have ne: "input \<noteq> []" using it ch by (auto simp: loop_body_def)
  have nd: "map tolower input \<noteq> ''done''"
    using it ne by (auto simp: loop_body_def Let_def)
  have nl: "map tolower input \<noteq> ''list''"
    using it ch ne nd by (auto simp: loop_body_def Let_def split: sum.splits if_splits)
  show ?thesis
  proof (cases "map tolower input = ''all''")
    case True
    then show ?thesis by simp
  next
    case False
    note na = this
    show ?thesis
    proof (cases "take 4 (map tolower input) = ''view''")
      case True
      from it[unfolded loop_body_view_branch[OF True]] ch command_view_keeps_plan
      show ?thesis by blast
    next
      case False
      note nv = this
      show ?thesis
      proof (cases "map tolower input = ''auto''")
        case True
        from it[unfolded loop_body_auto_branch[OF True]] ch True command_auto_changes
        show ?thesis by blast
      next
        case False
        then have tg: "takes_group_number input"
          using ne nl nd na nv by (simp add: takes_group_number_def)
        from it[unfolded loop_body_group_branch[OF tg]] ch tg command_group_changes
        show ?thesis by blast
      qed
    qed
  qed
qed

lemma signed_digits_no_digit:
  assumes "\<forall>c \<in> set s. \<not> isdigit c"
  shows "signed_digits s = None"
proof (cases s)
  case Nil
  then show ?thesis by (simp add: signed_digits_def)
next
  case (Cons c r)
  have c: "\<not> isdigit c" using assms Cons by simp
  have r: "takeWhile isdigit r = []" using assms Cons by (cases r) auto
  show ?thesis by (simp add: signed_digits_def Cons c r)
qed

lemma stoi_no_digit:
  assumes "list_all (\<lambda>c. \<not> isdigit c) input"
  shows "stoi input = Inl invalid_argument"
proof -
  have "\<forall>c \<in> set (dropWhile isspace input). \<not> isdigit c"
    using assms by (auto simp: list_all_iff dest: set_dropWhileD)
  then have "signed_digits (dropWhile isspace input) = None"
    by (rule signed_digits_no_digit)
  then show ?thesis by (simp add: stoi_def)
qed

text \<open>Claim C9, as amended. In one pass of the interactive retention loop an input that
  the loop rejects leaves every keep set as it was and is reported: a line that is no
  command and from which \<^verbatim>\<open>std::stoi\<close> reads no number (it throws; every line without
  a digit is one) gives the invalid-input message; a group number outside \<open>1..|groups|\<close>
  gives the out-of-range message, also after \<open>view\<close>; a selection that is empty, contains
  a character outside \<open>1\<close> to \<open>9\<close> or a digit above the size of the group gives one of
  the complaints; a bad group number after \<open>auto\<close> gives a complaint. In each case the pass
  continues with the retention plan it started with. Conversely, a pass that changes the
  plan comes from \<open>all\<close>, from \<open>auto\<close> with a group number in range, or from a line
  from which \<^verbatim>\<open>std::stoi\<close> reads a group number in range, followed by an accepted
  selection.\<close>

theorem invalid_input_keeps_plan:
  fixes filenameLength :: "path \<Rightarrow> u64"
  shows "(takes_group_number input \<and> stoi input = Inl e \<longrightarrow>
            loop_body filenameLength fs junk duplicateGroups keepFiles (input # inp)
              = Continue keepFiles inp [CommandPrompt, InvalidInput input])
       \<and> (takes_group_number input \<and> stoi input = Inr groupNum
            \<and> (groupNum < 1 \<or> int (length duplicateGroups) < groupNum) \<longrightarrow>
            loop_body filenameLength fs junk duplicateGroups keepFiles (input # inp)
              = Continue keepFiles inp
                  [CommandPrompt, GroupOutOfRange groupNum (length duplicateGroups)])
       \<and> (takes_group_number input \<and> stoi input = Inr groupNum
            \<and> \<not> (groupNum < 1 \<or> int (length duplicateGroups) < groupNum)
            \<and> \<not> selection_ok (length (duplicateGroups ! nat (groupNum - 1)))
                   (fst (getline inp)) \<longrightarrow>
            (\<exists>inp' shown.
               loop_body filenameLength fs junk duplicateGroups keepFiles (input # inp)
                 = Continue keepFiles inp' shown
               \<and> (\<exists>l\<in>set shown. is_complaint l)))
       \<and> (map tolower input = ''auto''
            \<and> (stoi (fst (getline inp)) = Inl e
                \<or> stoi (fst (getline inp)) = Inr groupNum
                  \<and> (groupNum < 1 \<or> int (length duplicateGroups) < groupNum)) \<longrightarrow>
            (\<exists>shown.
               loop_body filenameLength fs junk duplicateGroups keepFiles (input # inp)
                 = Continue keepFiles (tl inp) shown
               \<and> (\<exists>l\<in>set shown. is_complaint l)))
       \<and> (take 4 (map tolower input) = ''view''
            \<and> (extract_groupNum junk input < 1
                \<or> int (length duplicateGroups) < extract_groupNum junk input) \<longrightarrow>
            loop_body filenameLength fs junk duplicateGroups keepFiles (input # inp)
              = Continue keepFiles inp
                  [CommandPrompt,
                   GroupOutOfRange (extract_groupNum junk input) (length duplicateGroups)])
       \<and> (loop_body filenameLength fs junk duplicateGroups keepFiles (input # inp)
              = Continue keepFiles' inp' shown
            \<and> keepFiles' \<noteq> keepFiles \<longrightarrow>
            map tolower input = ''all''
            \<or> (map tolower input = ''auto''
                \<and> (\<exists>n. stoi (fst (getline inp)) = Inr n
                      \<and> \<not> (n < 1 \<or> int (length duplicateGroups) < n)))
            \<or> (takes_group_number input
                \<and> (\<exists>n. stoi input = Inr n
                      \<and> \<not> (n < 1 \<or> int (length duplicateGroups) < n)
                      \<and> selection_ok (length (duplicateGroups ! nat (n - 1)))
                            (fst (getline inp)))))
       \<and> (takes_group_number input \<and> list_all (\<lambda>c. \<not> isdigit c) input \<longrightarrow>
            loop_body filenameLength fs junk duplicateGroups keepFiles (input # inp)
              = Continue keepFiles inp [CommandPrompt, InvalidInput input])"
proof (intro conjI impI; (elim conjE)?)
  assume "takes_group_number input" "stoi input = Inl e"
  then show "loop_body filenameLength fs junk duplicateGroups keepFiles (input # inp)
              = Continue keepFiles inp [CommandPrompt, InvalidInput input]"
    by (simp add: loop_body_group_branch command_group_def)
next
  assume "takes_group_number input" "stoi input = Inr groupNum"
    "groupNum < 1 \<or> int (length duplicateGroups) < groupNum"
  then show "loop_body filenameLength fs junk duplicateGroups keepFiles (input # inp)
              = Continue keepFiles inp
                  [CommandPrompt, GroupOutOfRange groupNum (length duplicateGroups)]"
    by (simp add: loop_body_group_branch command_group_def)
next
  assume "takes_group_number input" "stoi input = Inr groupNum"
    "\<not> (groupNum < 1 \<or> int (length duplicateGroups) < groupNum)"
    "\<not> selection_ok (length (duplicateGroups ! nat (groupNum - 1))) (fst (getline inp))"
  then show "\<exists>inp' shown.
               loop_body filenameLength fs junk duplicateGroups keepFiles (input # inp)
                 = Continue keepFiles inp' shown
               \<and> (\<exists>l\<in>set shown. is_complaint l)"
    using command_group_invalid[of groupNum duplicateGroups input inp fs keepFiles]
    by (simp add: loop_body_group_branch)
next
  assume "map tolower input = ''auto''"
    "stoi (fst (getline inp)) = Inl e
       \<or> stoi (fst (getline inp)) = Inr groupNum
         \<and> (groupNum < 1 \<or> int (length duplicateGroups) < groupNum)"
  then show "\<exists>shown.
               loop_body filenameLength fs junk duplicateGroups keepFiles (input # inp)
                 = Continue keepFiles (tl inp) shown
               \<and> (\<exists>l\<in>set shown. is_complaint l)"
    using command_auto_invalid[of inp e duplicateGroups filenameLength fs keepFiles]
    by (auto simp: loop_body_auto_branch)
next
  assume "take 4 (map tolower input) = ''view''"
    "extract_groupNum junk input < 1
       \<or> int (length duplicateGroups) < extract_groupNum junk input"
  then show "loop_body filenameLength fs junk duplicateGroups keepFiles (input # inp)
              = Continue keepFiles inp
                  [CommandPrompt,
                   GroupOutOfRange (extract_groupNum junk input) (length duplicateGroups)]"
    by (simp add: loop_body_view_branch command_view_def Let_def)
next
  assume "loop_body filenameLength fs junk duplicateGroups keepFiles (input # inp)
              = Continue keepFiles' inp' shown" "keepFiles' \<noteq> keepFiles"
  then show "map tolower input = ''all''
            \<or> (map tolower input = ''auto''
                \<and> (\<exists>n. stoi (fst (getline inp)) = Inr n
                      \<and> \<not> (n < 1 \<or> int (length duplicateGroups) < n)))
            \<or> (takes_group_number input
                \<and> (\<exists>n. stoi input = Inr n
                      \<and> \<not> (n < 1 \<or> int (length duplicateGroups) < n)
                      \<and> selection_ok (length (duplicateGroups ! nat (n - 1)))
                            (fst (getline inp))))"
    by (rule loop_body_changes)
next
  assume "takes_group_number input" "list_all (\<lambda>c. \<not> isdigit c) input"
  then show "loop_body filenameLength fs junk duplicateGroups keepFiles (input # inp)
              = Continue keepFiles inp [CommandPrompt, InvalidInput input]"
    by (simp add: loop_body_group_branch command_group_def stoi_no_digit)
qed

text \<open>The group \<open>[a, b]\<close> with the plan \<open>{1}\<close>: the inputs \<open>7\<close>, \<open>x\<close>, \<open>1\<close> then \<open>23\<close>,
  \<open>1\<close> then \<open>2a\<close>, and \<open>1\<close> then an empty line are rejected and keep the plan; \<open>1\<close> then
  \<open>2\<close> changes it.\<close>

theorem invalid_input_keeps_plan_witness:
  "loop_body example_length example_fs 0 [[''a'', ''b'']] [{1}] [''7'']
     = Continue [{1}] [] [CommandPrompt, GroupOutOfRange 7 1]
   \<and> loop_body example_length example_fs 0 [[''a'', ''b'']] [{1}] [''x'']
     = Continue [{1}] [] [CommandPrompt, InvalidInput ''x'']
   \<and> loop_body example_length example_fs 0 [[''a'', ''b'']] [{1}] [''1'', ''23'']
     = Continue [{1}] []
         [CommandPrompt, SingleGroup [''a'', ''b''] 1, CurrentKeep {1},
          FileNumberOutOfRange 3 2]
   \<and> loop_body example_length example_fs 0 [[''a'', ''b'']] [{1}] [''1'', ''2a'']
     = Continue [{1}] []
         [CommandPrompt, SingleGroup [''a'', ''b''] 1, CurrentKeep {1},
          InvalidCharacter (CHR ''a'')]
   \<and> loop_body example_length example_fs 0 [[''a'', ''b'']] [{1}] [''1'', []]
     = Continue [{1}] []
         [CommandPrompt, SingleGroup [''a'', ''b''] 1, CurrentKeep {1}, NeedAtLeastOne]
   \<and> loop_body example_length example_fs 0 [[''a'', ''b'']] [{1}] [''1'', ''2'']
     = Continue [{2}] []
         [CommandPrompt, SingleGroup [''a'', ''b''] 1, CurrentKeep {1}, PlanUpdated 1 {2}]"
proof -
  have tg: "takes_group_number ''7''" "takes_group_number ''x''" "takes_group_number ''1''"
    by (simp_all add: takes_group_number_def tolower_def)
  have st: "stoi ''7'' = Inr 7" "stoi ''x'' = Inl invalid_argument" "stoi ''1'' = Inr 1"
    by (simp_all add: stoi_def signed_digits_def isspace_def isdigit_def decimal_value_def
        digit_value_def)
  have ev: "loop_body example_length example_fs 0 [[''a'', ''b'']] [{1}] [''1'', sel]
      = command_group example_fs [[''a'', ''b'']] [{1}] ''1'' [sel]" for sel
    by (rule loop_body_group_branch[OF tg(3)])
  have a: "loop_body example_length example_fs 0 [[''a'', ''b'']] [{1}] [''7'']
     = Continue [{1}] [] [CommandPrompt, GroupOutOfRange 7 1]"
    using invalid_input_keeps_plan[of "''7''" invalid_argument example_length example_fs 0
      "[[''a'', ''b'']]" "[{1}]" "[]" 7] tg st by simp
  have b: "loop_body example_length example_fs 0 [[''a'', ''b'']] [{1}] [''x'']
     = Continue [{1}] [] [CommandPrompt, InvalidInput ''x'']"
    using invalid_input_keeps_plan[of "''x''" invalid_argument example_length example_fs 0
      "[[''a'', ''b'']]" "[{1}]" "[]" 7] tg st by simp
  have c: "loop_body example_length example_fs 0 [[''a'', ''b'']] [{1}] [''1'', ''23'']
     = Continue [{1}] []
         [CommandPrompt, SingleGroup [''a'', ''b''] 1, CurrentKeep {1},
          FileNumberOutOfRange 3 2]"
    unfolding ev
    by (simp add: command_group_def st displaySingleGroup_def example_fs_def Let_def
        digit_value_def)
  have d: "loop_body example_length example_fs 0 [[''a'', ''b'']] [{1}] [''1'', ''2a'']
     = Continue [{1}] []
         [CommandPrompt, SingleGroup [''a'', ''b''] 1, CurrentKeep {1},
          InvalidCharacter (CHR ''a'')]"
    unfolding ev
    by (simp add: command_group_def st displaySingleGroup_def example_fs_def Let_def
        digit_value_def)
  have e: "loop_body example_length example_fs 0 [[''a'', ''b'']] [{1}] [''1'', []]
     = Continue [{1}] []
         [CommandPrompt, SingleGroup [''a'', ''b''] 1, CurrentKeep {1}, NeedAtLeastOne]"
    unfolding ev
    by (simp add: command_group_def st displaySingleGroup_def example_fs_def Let_def
        digit_value_def)
  have f: "loop_body example_length example_fs 0 [[''a'', ''b'']] [{1}] [''1'', ''2'']
     = Continue [{2}] []
         [CommandPrompt, SingleGroup [''a'', ''b''] 1, CurrentKeep {1}, PlanUpdated 1 {2}]"
    unfolding ev
    by (simp add: command_group_def st displaySingleGroup_def example_fs_def Let_def
        digit_value_def)
  from a b c d e f show ?thesis by simp
qed

text \<open>The line \<open>1abc\<close> is not a number, yet \<^verbatim>\<open>std::stoi\<close> reads the group number 1
  from it: no complaint is printed, and the selection \<open>2\<close> that follows changes the
  plan of group 1 from \<open>{1}\<close> to \<open>{2}\<close>.\<close>

theorem number_prefix_changes_plan:
  "stoi ''1abc'' = Inr 1
   \<and> loop_body example_length example_fs 0 [[''a'', ''b'']] [{1}] [''1abc'', ''2'']
     = Continue [{2}] []
         [CommandPrompt, SingleGroup [''a'', ''b''] 1, CurrentKeep {1}, PlanUpdated 1 {2}]
   \<and> \<not> list_ex is_complaint
         [CommandPrompt, SingleGroup [''a'', ''b''] 1, CurrentKeep {1}, PlanUpdated 1 {2}]
   \<and> [{2}] \<noteq> [{1 :: nat}]"
proof -
  have tg: "takes_group_number ''1abc''"
    by (simp add: takes_group_number_def tolower_def)
  have st: "stoi ''1abc'' = Inr 1"
    by (simp add: stoi_def signed_digits_def isspace_def isdigit_def decimal_value_def
        digit_value_def)
  have "loop_body example_length example_fs 0 [[''a'', ''b'']] [{1}] [''1abc'', ''2'']
     = Continue [{2}] []
         [CommandPrompt, SingleGroup [''a'', ''b''] 1, CurrentKeep {1}, PlanUpdated 1 {2}]"
    unfolding loop_body_group_branch[OF tg]
    by (simp add: command_group_def st displaySingleGroup_def example_fs_def Let_def
        digit_value_def)
  with st show ?thesis by simp
qed

section \<open>Properties of automatic confirmation\<close>

lemma askForConfirmation_auto:
  "askForConfirmation True question defaultYes inp = (True, inp, [AutoConfirmed question])"
  by (simp add: askForConfirmation_def)

lemma first_missing_head:
  "first_missing fs (p # ps) = None \<Longrightarrow> \<exists>f. fs p = Some f"
  by (cases "fs p") simp_all

lemma anchors_present:
  "groups_missing fs groups = None \<Longrightarrow> anchors_missing fs groups = None"
proof (induction groups)
  case Nil
  show ?case by simp
next
  case (Cons g gs)
  from Cons.prems have ne: "g \<noteq> []" and fm: "first_missing fs g = None"
    and rest: "groups_missing fs gs = None"
    by (auto split: if_splits option.splits)
  from ne fm first_missing_head[of fs "hd g" "tl g"] obtain f where "fs (hd g) = Some f"
    by auto
  with ne Cons.IH[OF rest] show ?case by (simp add: getFileSize_def)
qed

lemma space_savable_present:
  "groups_missing fs groups = None \<Longrightarrow> \<exists>total. space_savable fs groups acc = Inr total"
proof (induction groups arbitrary: acc)
  case Nil
  show ?case by simp
next
  case (Cons g gs)
  from Cons.prems have ne: "g \<noteq> []" and fm: "first_missing fs g = None"
    and rest: "groups_missing fs gs = None"
    by (auto split: if_splits option.splits)
  from ne fm first_missing_head[of fs "hd g" "tl g"] obtain f where "fs (hd g) = Some f"
    by auto
  with ne Cons.IH[OF rest] show ?case by (simp add: getFileSize_def)
qed

lemma listing_present:
  "groups_missing fs groups = None
     \<Longrightarrow> displayDuplicateGroupsWithNumbers fs groups = Inr [GroupList groups]"
  by (simp add: displayDuplicateGroupsWithNumbers_def)

lemma processSingleFolder_auto:
  assumes "duplicateGroups \<noteq> []" and "groups_missing fs duplicateGroups = None"
  shows "processSingleFolder True dryRun skipEmptyFolders filenameLength fs junk
           duplicateGroups inp
         = (case letUserModifyRetention filenameLength fs junk duplicateGroups inp of
              NeverReturns \<Rightarrow> NeverReturns
            | Throws e \<Rightarrow> Throws e
            | Returns (keepFiles, inp', edits) \<Rightarrow>
                (case displayModifiedRetention fs duplicateGroups keepFiles of
                   Inl e \<Rightarrow> Throws e
                 | Inr plan \<Rightarrow>
                     (case performDeletionWithCustomRetention dryRun fs duplicateGroups
                             keepFiles of
                        (Some e, st) \<Rightarrow> Throws e
                      | (None, st) \<Rightarrow>
                          Returns (fsys st, removeCalls st, inp',
                            [FolderStatistics, GroupList duplicateGroups,
                             AutoConfirmed customize_question]
                            @ edits @ plan @ [AutoConfirmed delete_question]
                            @ printed st))))"
  using assms
  by (simp add: processSingleFolder_def anchors_present listing_present
      askForConfirmation_auto choose_retention_def
      split: outcome.splits sum.splits prod.splits option.splits)

lemma deduplicate_global_auto:
  assumes "duplicateGroups \<noteq> []" and "groups_missing fs duplicateGroups = None"
  shows "\<exists>totalSpaceSaved.
           space_savable fs duplicateGroups 0 = Inr totalSpaceSaved
           \<and> deduplicate_global True dryRun filenameLength fs junk duplicateGroups inp
             = (case letUserModifyRetention filenameLength fs junk duplicateGroups inp of
                  NeverReturns \<Rightarrow> NeverReturns
                | Throws e \<Rightarrow> Throws e
                | Returns (keepFiles, inp', edits) \<Rightarrow>
                    (case displayModifiedRetention fs duplicateGroups keepFiles of
                       Inl e \<Rightarrow> Throws e
                     | Inr plan \<Rightarrow>
                         (case performGlobalDeletionWithCustomRetention dryRun fs
                                 duplicateGroups keepFiles totalSpaceSaved of
                            (Some e, st) \<Rightarrow> Throws e
                          | (None, st) \<Rightarrow>
                              Returns (fsys st, removeCalls st, inp',
                                [GlobalStatistics, GroupList duplicateGroups,
                                 AutoConfirmed global_customize_question]
                                @ edits @ plan @ [AutoConfirmed global_delete_question]
                                @ printed st))))"
proof -
  from space_savable_present[OF assms(2), of 0] obtain saved where
    t: "space_savable fs duplicateGroups 0 = Inr saved" by blast
  show ?thesis
    using assms t
    by (simp add: deduplicate_global_def listing_present
        askForConfirmation_auto choose_retention_def
        split: outcome.splits sum.splits prod.splits option.splits)
qed

lemma letUserModifyRetention_done:
  assumes "map tolower line = ''done''"
  shows "letUserModifyRetention filenameLength fs junk duplicateGroups (line # inp)
           = Returns (replicate (length duplicateGroups) {1}, inp,
                      [Instructions, CommandPrompt])"
proof -
  have "line \<noteq> []" using assms by auto
  then have "loop_body filenameLength fs junk duplicateGroups keepFiles (line # inp) = Break"
    for keepFiles
    using assms by (simp add: loop_body_def)
  then show ?thesis
    by (simp add: letUserModifyRetention_def
        retention_loop.simps[of filenameLength fs junk duplicateGroups _ "line # inp"])
qed

lemma letUserModifyRetention_eof:
  "letUserModifyRetention filenameLength fs junk duplicateGroups [] = NeverReturns"
  by (simp add: letUserModifyRetention_def
      retention_loop.simps[of filenameLength fs junk duplicateGroups _ "[]"])

lemma example_listing: "groups_missing example_fs [[''a'', ''b'']] = None"
  by (simp add: example_fs_def)

lemma example_plan:
  "displayModifiedRetention example_fs [[''a'', ''b'']] [{1}]
     = Inr [RetentionPlan [[''a'', ''b'']] [{1}]]"
  by (simp add: displayModifiedRetention_def example_fs_def)

lemma example_deletion:
  "performDeletionWithCustomRetention False example_fs [[''a'', ''b'']] [{1}]
     = (None, \<lparr>fsys = example_fs(''b'' := None), removeCalls = [''b''],
               successfullyDeleted = 1, failedToDelete = 0, actualSpaceSaved = 3,
               printed = [StartDeleting, Deleted 2 ''b'', DeletionSummary 1 0 3]\<rparr>)"
  by (simp add: performDeletionWithCustomRetention_def getFileSize_def fs_remove_def
      deletion_report_def example_fs_def)

lemma example_global_deletion:
  "performGlobalDeletionWithCustomRetention False example_fs [[''a'', ''b'']] [{1}] totalSpaceSaved
     = (None, \<lparr>fsys = example_fs(''b'' := None), removeCalls = [''b''],
               successfullyDeleted = 1, failedToDelete = 0, actualSpaceSaved = 3,
               printed = [StartDeleting, Deleted 2 ''b'', DeletionSummary 1 0 3]\<rparr>)"
  by (simp add: performGlobalDeletionWithCustomRetention_def getFileSize_def fs_remove_def
      deletion_report_def example_fs_def)

lemma example_folder:
  "processSingleFolder True False False example_length example_fs 0 [[''a'', ''b'']] [''done'']
     = Returns (example_fs(''b'' := None), [''b''], [],
         [FolderStatistics, GroupList [[''a'', ''b'']], AutoConfirmed customize_question,
          Instructions, CommandPrompt, RetentionPlan [[''a'', ''b'']] [{1}],
          AutoConfirmed delete_question, StartDeleting, Deleted 2 ''b'',
          DeletionSummary 1 0 3])"
proof -
  have "map tolower ''done'' = ''done''" by (simp add: tolower_def)
  from letUserModifyRetention_done[OF this, of example_length example_fs 0
      "[[''a'', ''b'']]" "[]"]
  have "letUserModifyRetention example_length example_fs 0 [[''a'', ''b'']] [''done'']
      = Returns ([{1}], [], [Instructions, CommandPrompt])" by simp
  moreover note example_plan example_deletion
  moreover have "[[''a'', ''b'']] \<noteq> []" by simp
  note processSingleFolder_auto[OF this example_listing, of False False example_length 0
      "[''done'']"]
  ultimately show ?thesis by simp
qed

text \<open>Claim C6, as amended. With \<^verbatim>\<open>-y/--yes\<close> set every yes/no prompt is answered YES,
  whatever its default, and no line of input is read for it. So, for a scan that found
  duplicate groups whose files are all there, a run under \<^verbatim>\<open>--yes\<close> is the
  interactive retention loop followed by the deleter, in a single folder and in global
  mode alike: the customise prompt resolves to YES and the loop is entered; when the
  loop returns a plan, the delete-confirm prompt resolves to YES and the deleter is run
  with that plan, the deletion is never skipped; when the loop does not return, the run
  does not return and the deleter is not reached. The loop returns the default plan
  when the first line of input is \<open>done\<close>, and it does not return when standard input is
  at its end.\<close>

theorem yes_answers_every_prompt_yes:
  fixes filenameLength :: "path \<Rightarrow> u64"
  shows "askForConfirmation True question defaultYes inp0
           = (True, inp0, [AutoConfirmed question])
       \<and> (duplicateGroups \<noteq> [] \<and> groups_missing fs duplicateGroups = None \<longrightarrow>
            processSingleFolder True dryRun skipEmptyFolders filenameLength fs junk
              duplicateGroups inp
            = (case letUserModifyRetention filenameLength fs junk duplicateGroups inp of
                 NeverReturns \<Rightarrow> NeverReturns
               | Throws e \<Rightarrow> Throws e
               | Returns (keepFiles, inp', edits) \<Rightarrow>
                   (case displayModifiedRetention fs duplicateGroups keepFiles of
                      Inl e \<Rightarrow> Throws e
                    | Inr plan \<Rightarrow>
                        (case performDeletionWithCustomRetention dryRun fs duplicateGroups
                                keepFiles of
                           (Some e, st) \<Rightarrow> Throws e
                         | (None, st) \<Rightarrow>
                             Returns (fsys st, removeCalls st, inp',
                               [FolderStatistics, GroupList duplicateGroups,
                                AutoConfirmed customize_question]
                               @ edits @ plan @ [AutoConfirmed delete_question]
                               @ printed st)))))
       \<and> (duplicateGroups \<noteq> [] \<and> groups_missing fs duplicateGroups = None \<longrightarrow>
            (\<exists>totalSpaceSaved.
               space_savable fs duplicateGroups 0 = Inr totalSpaceSaved
               \<and> deduplicate_global True dryRun filenameLength fs junk duplicateGroups inp
                 = (case letUserModifyRetention filenameLength fs junk duplicateGroups inp of
                      NeverReturns \<Rightarrow> NeverReturns
                    | Throws e \<Rightarrow> Throws e
                    | Returns (keepFiles, inp', edits) \<Rightarrow>
                        (case displayModifiedRetention fs duplicateGroups keepFiles of
                           Inl e \<Rightarrow> Throws e
                         | Inr plan \<Rightarrow>
                             (case performGlobalDeletionWithCustomRetention dryRun fs
                                     duplicateGroups keepFiles totalSpaceSaved of
                                (Some e, st) \<Rightarrow> Throws e
                              | (None, st) \<Rightarrow>
                                  Returns (fsys st, removeCalls st, inp',
                                    [GlobalStatistics, GroupList duplicateGroups,
                                     AutoConfirmed global_customize_question]
                                    @ edits @ plan
                                    @ [AutoConfirmed global_delete_question]
                                    @ printed st))))))
       \<and> (map tolower line = ''done'' \<longrightarrow>
            letUserModifyRetention filenameLength fs junk duplicateGroups (line # inp)
              = Returns (replicate (length duplicateGroups) {1}, inp,
                         [Instructions, CommandPrompt]))
       \<and> letUserModifyRetention filenameLength fs junk duplicateGroups [] = NeverReturns
       \<and> (duplicateGroups \<noteq> [] \<and> groups_missing fs duplicateGroups = None \<longrightarrow>
            processSingleFolder True dryRun skipEmptyFolders filenameLength fs junk
              duplicateGroups [] = NeverReturns
            \<and> deduplicate_global True dryRun filenameLength fs junk duplicateGroups []
              = NeverReturns)"
proof (intro conjI impI; (elim conjE)?)
  show "askForConfirmation True question defaultYes inp0
          = (True, inp0, [AutoConfirmed question])"
    by (rule askForConfirmation_auto)
next
  assume "duplicateGroups \<noteq> []" "groups_missing fs duplicateGroups = None"
  then show "processSingleFolder True dryRun skipEmptyFolders filenameLength fs junk
              duplicateGroups inp
            = (case letUserModifyRetention filenameLength fs junk duplicateGroups inp of
                 NeverReturns \<Rightarrow> NeverReturns
               | Throws e \<Rightarrow> Throws e
               | Returns (keepFiles, inp', edits) \<Rightarrow>
                   (case displayModifiedRetention fs duplicateGroups keepFiles of
                      Inl e \<Rightarrow> Throws e
                    | Inr plan \<Rightarrow>
                        (case performDeletionWithCustomRetention dryRun fs duplicateGroups
                                keepFiles of
                           (Some e, st) \<Rightarrow> Throws e
                         | (None, st) \<Rightarrow>
                             Returns (fsys st, removeCalls st, inp',
                               [FolderStatistics, GroupList duplicateGroups,
                                AutoConfirmed customize_question]
                               @ edits @ plan @ [AutoConfirmed delete_question]
                               @ printed st))))"
    by (rule processSingleFolder_auto)
next
  assume "duplicateGroups \<noteq> []" "groups_missing fs duplicateGroups = None"
  then show "\<exists>totalSpaceSaved.
               space_savable fs duplicateGroups 0 = Inr totalSpaceSaved
               \<and> deduplicate_global True dryRun filenameLength fs junk duplicateGroups inp
                 = (case letUserModifyRetention filenameLength fs junk duplicateGroups inp of
                      NeverReturns \<Rightarrow> NeverReturns
                    | Throws e \<Rightarrow> Throws e
                    | Returns (keepFiles, inp', edits) \<Rightarrow>
                        (case displayModifiedRetention fs duplicateGroups keepFiles of
                           Inl e \<Rightarrow> Throws e
                         | Inr plan \<Rightarrow>
                             (case performGlobalDeletionWithCustomRetention dryRun fs
                                     duplicateGroups keepFiles totalSpaceSaved of
                                (Some e, st) \<Rightarrow> Throws e
                              | (None, st) \<Rightarrow>
                                  Returns (fsys st, removeCalls st, inp',
                                    [GlobalStatistics, GroupList duplicateGroups,
                                     AutoConfirmed global_customize_question]
                                    @ edits @ plan
                                    @ [AutoConfirmed global_delete_question]
                                    @ printed st))))"
    by (rule deduplicate_global_auto)
next
  assume "map tolower line = ''done''"
  then show "letUserModifyRetention filenameLength fs junk duplicateGroups (line # inp)
              = Returns (replicate (length duplicateGroups) {1}, inp,
                         [Instructions, CommandPrompt])"
    by (rule letUserModifyRetention_done)
next
  show "letUserModifyRetention filenameLength fs junk duplicateGroups [] = NeverReturns"
    by (rule letUserModifyRetention_eof)
next
  assume "duplicateGroups \<noteq> []" "groups_missing fs duplicateGroups = None"
  then show "processSingleFolder True dryRun skipEmptyFolders filenameLength fs junk
              duplicateGroups [] = NeverReturns"
    by (simp add: processSingleFolder_auto letUserModifyRetention_eof)
next
  assume a: "duplicateGroups \<noteq> []" "groups_missing fs duplicateGroups = None"
  from deduplicate_global_auto[OF a, of dryRun filenameLength junk "[]"]
  show "deduplicate_global True dryRun filenameLength fs junk duplicateGroups []
              = NeverReturns"
    by (auto simp: letUserModifyRetention_eof)
qed

text \<open>The group \<open>[a, b]\<close> under \<^verbatim>\<open>--yes\<close>: with the input \<open>done\<close> the file \<open>b\<close> is removed,
  in a single folder and in global mode; with standard input at its end the run does
  not return.\<close>

theorem yes_answers_every_prompt_yes_witness:
  "processSingleFolder True False False example_length example_fs 0 [[''a'', ''b'']] [''done'']
     = Returns (example_fs(''b'' := None), [''b''], [],
         [FolderStatistics, GroupList [[''a'', ''b'']], AutoConfirmed customize_question,
          Instructions, CommandPrompt, RetentionPlan [[''a'', ''b'']] [{1}],
          AutoConfirmed delete_question, StartDeleting, Deleted 2 ''b'',
          DeletionSummary 1 0 3])
   \<and> deduplicate_global True False example_length example_fs 0 [[''a'', ''b'']] [''done'']
     = Returns (example_fs(''b'' := None), [''b''], [],
         [GlobalStatistics, GroupList [[''a'', ''b'']],
          AutoConfirmed global_customize_question,
          Instructions, CommandPrompt, RetentionPlan [[''a'', ''b'']] [{1}],
          AutoConfirmed global_delete_question, StartDeleting, Deleted 2 ''b'',
          DeletionSummary 1 0 3])
   \<and> processSingleFolder True False False example_length example_fs 0 [[''a'', ''b'']] []
     = NeverReturns
   \<and> deduplicate_global True False example_length example_fs 0 [[''a'', ''b'']] []
     = NeverReturns"
proof -
  note inst = yes_answers_every_prompt_yes[where duplicateGroups = "[[''a'', ''b'']]"
      and fs = example_fs and dryRun = False and skipEmptyFolders = False
      and filenameLength = example_length and junk = 0 and inp = "[]"
      and line = "''done''"]
  have pre: "[[''a'', ''b'']] \<noteq> [] \<and> groups_missing example_fs [[''a'', ''b'']] = None"
    using example_listing by simp
  have dn: "map tolower ''done'' = ''done''" by (simp add: tolower_def)
  have lu: "letUserModifyRetention example_length example_fs 0 [[''a'', ''b'']] [''done'']
      = Returns ([{1}], [], [Instructions, CommandPrompt])"
    using inst[THEN conjunct2, THEN conjunct2, THEN conjunct2, THEN conjunct1, rule_format,
        OF dn] by simp
  have eof: "processSingleFolder True False False example_length example_fs 0
        [[''a'', ''b'']] [] = NeverReturns
      \<and> deduplicate_global True False example_length example_fs 0 [[''a'', ''b'']] []
        = NeverReturns"
    by (rule inst[THEN conjunct2, THEN conjunct2, THEN conjunct2, THEN conjunct2,
          THEN conjunct2, rule_format, OF pre])
  note inst' = yes_answers_every_prompt_yes[where duplicateGroups = "[[''a'', ''b'']]"
      and fs = example_fs and dryRun = False and skipEmptyFolders = False
      and filenameLength = example_length and junk = 0 and inp = "[''done'']"]
  have folder: "processSingleFolder True False False example_length example_fs 0
        [[''a'', ''b'']] [''done'']
     = Returns (example_fs(''b'' := None), [''b''], [],
         [FolderStatistics, GroupList [[''a'', ''b'']], AutoConfirmed customize_question,
          Instructions, CommandPrompt, RetentionPlan [[''a'', ''b'']] [{1}],
          AutoConfirmed delete_question, StartDeleting, Deleted 2 ''b'',
          DeletionSummary 1 0 3])"
    using inst'[THEN conjunct2, THEN conjunct1, rule_format, OF pre]
      lu example_plan example_deletion
    by simp
  from inst'[THEN conjunct2, THEN conjunct2, THEN conjunct1, rule_format, OF pre]
  obtain t where
    "deduplicate_global True False example_length example_fs 0 [[''a'', ''b'']] [''done'']
     = (case letUserModifyRetention example_length example_fs 0 [[''a'', ''b'']] [''done''] of
          NeverReturns \<Rightarrow> NeverReturns
        | Throws e \<Rightarrow> Throws e
        | Returns (keepFiles, inp', edits) \<Rightarrow>
            (case displayModifiedRetention example_fs [[''a'', ''b'']] keepFiles of
               Inl e \<Rightarrow> Throws e
             | Inr plan \<Rightarrow>
                 (case performGlobalDeletionWithCustomRetention False example_fs
                         [[''a'', ''b'']] keepFiles t of
                    (Some e, st) \<Rightarrow> Throws e
                  | (None, st) \<Rightarrow>
                      Returns (fsys st, removeCalls st, inp',
                        [GlobalStatistics, GroupList [[''a'', ''b'']],
                         AutoConfirmed global_customize_question]
                        @ edits @ plan
                        @ [AutoConfirmed global_delete_question]
                        @ printed st))))"
    by blast
  with lu example_plan example_global_deletion[of t]
  have global: "deduplicate_global True False example_length example_fs 0
        [[''a'', ''b'']] [''done'']
     = Returns (example_fs(''b'' := None), [''b''], [],
         [GlobalStatistics, GroupList [[''a'', ''b'']],
          AutoConfirmed global_customize_question,
          Instructions, CommandPrompt, RetentionPlan [[''a'', ''b'']] [{1}],
          AutoConfirmed global_delete_question, StartDeleting, Deleted 2 ''b'',
          DeletionSummary 1 0 3])"
    by simp
  from folder global eof show ?thesis by simp
qed

text \<open>Under \<^verbatim>\<open>--yes\<close> the delete-confirm prompt, whose default is NO, is answered YES,
  and the file \<open>b\<close> of the group \<open>[a, b]\<close> is removed.\<close>

theorem yes_confirms_deletion:
  "fst (askForConfirmation True delete_question False []) \<noteq> False
   \<and> processSingleFolder True False False example_length example_fs 0 [[''a'', ''b'']]
       [''done'']
     = Returns (example_fs(''b'' := None), [''b''], [],
         [FolderStatistics, GroupList [[''a'', ''b'']], AutoConfirmed customize_question,
          Instructions, CommandPrompt, RetentionPlan [[''a'', ''b'']] [{1}],
          AutoConfirmed delete_question, StartDeleting, Deleted 2 ''b'',
          DeletionSummary 1 0 3])
   \<and> (example_fs(''b'' := None)) ''b'' = None \<and> example_fs ''b'' \<noteq> None"
  using example_folder by (simp add: askForConfirmation_auto example_fs_def)

end
